theory Spec2Isabelle
  imports Main "HOL-Library.Word"
begin

unbundle bit_operations_syntax

section \<open>sdlocker-tiny: the SD card lock/unlock firmware\<close>

text \<open>
  A shallow embedding of \<^verbatim>\<open>sdlocker-tiny.cpp\<close>. The firmware talks to an SD card in SPI
  mode through a bit-banged port, keeps a copy of the card's CSD register in memory and
  flips the temporary write-protect bit in it.

  The C globals become the fields of one state record that every function takes and
  returns. The card is the environment: \<open>miso s n\<close> is the byte whose bits the card puts
  on the MISO line during the \<open>n\<close>-th byte exchange since power-up (most significant bit
  first), and \<open>wire s\<close> records, for every exchange so far, whether the card was selected
  (CS low) and which byte the card saw on MOSI at the eight rising clock edges.
\<close>

type_synonym u8 = "8 word"
type_synonym u16 = "16 word"
type_synonym u32 = "32 word"

subsection \<open>Constants of the source\<close>

named_theorems sd_defs \<open>the values of the command, result and card type constants\<close>

definition SD_GO_IDLE :: u8 where [sd_defs]: "SD_GO_IDLE = 0x40 + 0"
definition SD_INIT :: u8 where [sd_defs]: "SD_INIT = 0x40 + 1"
definition SD_SEND_IF_COND :: u8 where [sd_defs]: "SD_SEND_IF_COND = 0x40 + 8"
definition SD_SEND_CSD :: u8 where [sd_defs]: "SD_SEND_CSD = 0x40 + 9"
definition SD_SEND_CID :: u8 where [sd_defs]: "SD_SEND_CID = 0x40 + 10"
definition SD_SEND_STATUS :: u8 where [sd_defs]: "SD_SEND_STATUS = 0x40 + 13"
definition SD_SET_BLK_LEN :: u8 where [sd_defs]: "SD_SET_BLK_LEN = 0x40 + 16"
definition SD_READ_BLK :: u8 where [sd_defs]: "SD_READ_BLK = 0x40 + 17"
definition SD_LOCK_UNLOCK :: u8 where [sd_defs]: "SD_LOCK_UNLOCK = 0x40 + 42"
definition CMD55 :: u8 where [sd_defs]: "CMD55 = 0x40 + 55"
definition SD_READ_OCR :: u8 where [sd_defs]: "SD_READ_OCR = 0x40 + 58"
definition SD_ADV_INIT :: u8 where [sd_defs]: "SD_ADV_INIT = 0xc0 + 41"
definition SD_PROGRAM_CSD :: u8 where [sd_defs]: "SD_PROGRAM_CSD = 0x40 + 27"

definition LOCK_BIT_MASK :: u8 where [simp]: "LOCK_BIT_MASK = 0x10"

definition SDCARD_OK :: u8 where [sd_defs]: "SDCARD_OK = 0"
definition SDCARD_NOT_DETECTED :: u8 where [sd_defs]: "SDCARD_NOT_DETECTED = 1"
definition SDCARD_TIMEOUT :: u8 where [sd_defs]: "SDCARD_TIMEOUT = 2"
definition SDCARD_RWFAIL :: u8 where [sd_defs]: "SDCARD_RWFAIL = 3"

definition SDTYPE_UNKNOWN :: u8 where [sd_defs]: "SDTYPE_UNKNOWN = 0"
definition SDTYPE_SD :: u8 where [sd_defs]: "SDTYPE_SD = 1"
definition SDTYPE_SDHC :: u8 where [sd_defs]: "SDTYPE_SDHC = 2"

definition MOSI_BIT :: nat where [simp]: "MOSI_BIT = 0"
definition MISO_BIT :: nat where [simp]: "MISO_BIT = 1"
definition SCK_BIT :: nat where [simp]: "SCK_BIT = 2"
definition CS_BIT :: nat where [simp]: "CS_BIT = 3"
definition LEDSW_BIT :: nat where [simp]: "LEDSW_BIT = 4"
definition LEDSW_MASK :: u8 where [simp]: "LEDSW_MASK = push_bit LEDSW_BIT 1"

definition PATTERN_WERROR :: u32 where [simp]: "PATTERN_WERROR = 0x000f000f"

definition CRC7_POLY :: nat where [simp]: "CRC7_POLY = 0x89"

subsection \<open>State\<close>

text \<open>
  \<open>PORTB\<close> is the one output register behind \<^verbatim>\<open>SPI_PORT\<close> and \<^verbatim>\<open>LEDSW_PORT\<close>; \<open>csd\<close> and
  \<open>crctable\<close> are the arrays \<^verbatim>\<open>csd[16]\<close> and \<^verbatim>\<open>crctable[256]\<close>.
\<close>

record sd_state =
  PORTB :: u8
  sdtype :: u8
  csd :: "u8 list"
  crctable :: "u8 list"
  miso :: "nat \<Rightarrow> u8"
  wire :: "(bool \<times> u8) list"

definition selected :: "sd_state \<Rightarrow> bool" where
  "selected s = (\<not> bit (PORTB s) CS_BIT)"

subsection \<open>Port primitives\<close>

definition Select :: "sd_state \<Rightarrow> sd_state" where
  "Select s = s\<lparr>PORTB := PORTB s AND NOT (push_bit CS_BIT 1)\<rparr>"

definition Deselect :: "sd_state \<Rightarrow> sd_state" where
  "Deselect s = s\<lparr>PORTB := PORTB s OR push_bit CS_BIT 1\<rparr>"

definition TURN_LED_ON :: "sd_state \<Rightarrow> sd_state" where
  "TURN_LED_ON s = s\<lparr>PORTB := PORTB s AND NOT LEDSW_MASK\<rparr>"

definition TURN_LED_OFF :: "sd_state \<Rightarrow> sd_state" where
  "TURN_LED_OFF s = s\<lparr>PORTB := PORTB s OR LEDSW_MASK\<rparr>"

text \<open>
  One pass through the body of the loop of \<^verbatim>\<open>Xchg\<close>, on the triple of the byte \<open>c\<close> being
  shifted, the port register, and the byte the card has assembled so far from the MOSI
  levels it sampled at the rising clock edges. \<open>pin\<close> is the MISO level read in this pass.
\<close>

definition Xchg_clock :: "bool \<Rightarrow> u8 \<times> u8 \<times> u8 \<Rightarrow> u8 \<times> u8 \<times> u8" where
  "Xchg_clock pin = (\<lambda>(c, port, seen).
     (let port1 = (if c AND 0x80 \<noteq> 0 then port OR push_bit MOSI_BIT 1
                   else port AND NOT (push_bit MOSI_BIT 1));
          port2 = port1 OR push_bit SCK_BIT 1;
          seen1 = push_bit 1 seen OR (drop_bit MOSI_BIT port2 AND 1);
          c1 = push_bit 1 c;
          c2 = (if pin then c1 OR 0x01 else c1 AND NOT 0x01);
          port3 = port2 AND NOT (push_bit SCK_BIT 1)
      in (c2, port3, seen1)))"

definition Xchg :: "u8 \<Rightarrow> sd_state \<Rightarrow> u8 \<times> sd_state" where
  "Xchg c s =
     (let r = miso s (length (wire s));
          (c', port', seen) =
             fold (\<lambda>b. Xchg_clock (bit r (7 - b))) [0..<8] (c, PORTB s, 0)
      in (c', s\<lparr>PORTB := port', wire := wire s @ [(selected s, seen)]\<rparr>))"

subsection \<open>LED\<close>

text \<open>
  \<^verbatim>\<open>BlinkLED\<close>: at most 32 passes, leaving early once the shifted pattern is zero. The
  first argument counts the passes that remain; the delays leave no trace in the state.
\<close>

fun BlinkLED_loop :: "nat \<Rightarrow> u32 \<Rightarrow> sd_state \<Rightarrow> sd_state" where
  "BlinkLED_loop 0 pattern s = s"
| "BlinkLED_loop (Suc n) pattern s =
     (let s1 = (if pattern AND 0x80000000 \<noteq> 0 then TURN_LED_ON s else TURN_LED_OFF s);
          pattern' = push_bit 1 pattern
      in if pattern' = 0 then s1 else BlinkLED_loop n pattern' s1)"

definition BlinkLED :: "u32 \<Rightarrow> sd_state \<Rightarrow> sd_state" where
  "BlinkLED pattern s = BlinkLED_loop 32 pattern s"

subsection \<open>CRC7\<close>

text \<open>
  \<^verbatim>\<open>GenerateCRCTable\<close>. The inner loop runs \<open>j\<close> from 1 to 7 on the cell \<open>crctable[i]\<close>, the
  outer loop runs \<open>i\<close> from 0 to 255. The counters are 16-bit in the source and stay
  below 257, so they are natural numbers here; storing into the byte array truncates.
\<close>

function GenerateCRCTable_j :: "nat \<Rightarrow> nat \<Rightarrow> u8 list \<Rightarrow> u8 list" where
  "GenerateCRCTable_j i j t =
     (if j < 8 then
        (let t1 = t[i := push_bit 1 (t ! i)];
             t2 = (if (t1 ! i) AND 0x80 \<noteq> 0 then t1[i := (t1 ! i) XOR of_nat CRC7_POLY] else t1)
         in GenerateCRCTable_j i (j + 1) t2)
      else t)"
  by pat_completeness auto
termination
  by (relation "measure (\<lambda>(i, j, t). 8 - j)") simp_all

declare GenerateCRCTable_j.simps [simp del]

function GenerateCRCTable_i :: "nat \<Rightarrow> u8 list \<Rightarrow> u8 list" where
  "GenerateCRCTable_i i t =
     (if i < 256 then
        (let t1 = t[i := (if i AND 0x80 \<noteq> 0 then of_nat (i XOR CRC7_POLY) else of_nat i)]
         in GenerateCRCTable_i (i + 1) (GenerateCRCTable_j i 1 t1))
      else t)"
  by pat_completeness auto
termination
  by (relation "measure (\<lambda>(i, t). 256 - i)") simp_all

declare GenerateCRCTable_i.simps [simp del]

definition GenerateCRCTable :: "sd_state \<Rightarrow> sd_state" where
  "GenerateCRCTable s = s\<lparr>crctable := GenerateCRCTable_i 0 (crctable s)\<rparr>"

text \<open>
  \<^verbatim>\<open>AddByteToCRC\<close>. The index \<^verbatim>\<open>(crc << 1) ^ b\<close> is computed in \<^verbatim>\<open>int\<close>, so it is not
  truncated to a byte and can reach 511; a read past the 256 entries of the table is
  undefined in C and is \<open>None\<close> here.
\<close>

definition AddByteToCRC :: "sd_state \<Rightarrow> u8 \<Rightarrow> u8 \<Rightarrow> u8 option" where
  "AddByteToCRC s crc b =
     (let idx = push_bit 1 (unat crc) XOR unat b
      in if idx < length (crctable s) then Some (crctable s ! idx) else None)"

subsection \<open>Commands\<close>

text \<open>
  The response loop of \<^verbatim>\<open>SD_send_command\<close>: up to 10 exchanges of \<open>0xff\<close>, stopping at the
  first byte with a clear high bit. The first argument counts the passes that remain and
  the second is the variable \<^verbatim>\<open>response\<close>.
\<close>

fun SD_response_loop :: "nat \<Rightarrow> u8 \<Rightarrow> sd_state \<Rightarrow> u8 \<times> sd_state" where
  "SD_response_loop 0 response s = (response, s)"
| "SD_response_loop (Suc n) response s =
     (let (r, s1) = Xchg 0xff s
      in if r AND 0x80 = 0 then (r, s1) else SD_response_loop n r s1)"

text \<open>
  The part of \<^verbatim>\<open>SD_send_command\<close> after the handling of advanced commands: the lead-in,
  the six bytes of the command, the response loop and the conditional release of the card.
  \<^verbatim>\<open>response\<close> is not initialised in the source before the loop, which always runs.
\<close>

definition SD_send_frame :: "u8 \<Rightarrow> u32 \<Rightarrow> sd_state \<Rightarrow> u8 \<times> sd_state" where
  "SD_send_frame command arg s0 =
     (let s1 = Deselect s0;
          s2 = snd (Xchg 0xff s1);
          s3 = Select s2;
          s4 = snd (Xchg 0xff s3);
          s5 = snd (Xchg (command OR 0x40) s4);
          s6 = snd (Xchg (ucast (drop_bit 24 arg)) s5);
          s7 = snd (Xchg (ucast (drop_bit 16 arg)) s6);
          s8 = snd (Xchg (ucast (drop_bit 8 arg)) s7);
          s9 = snd (Xchg (ucast (arg AND 0xff)) s8);
          crc0 = 0x01;
          crc1 = (if command = SD_GO_IDLE then 0x95 else crc0);
          crc2 = (if command = SD_SEND_IF_COND then 0x87 else crc1);
          s10 = snd (Xchg crc2 s9);
          (response, s11) = SD_response_loop 10 0 s10
      in if command \<noteq> SD_READ_BLK \<and> command \<noteq> SD_READ_OCR \<and> command \<noteq> SD_SEND_CSD \<and>
            command \<noteq> SD_SEND_STATUS \<and> command \<noteq> SD_SEND_CID \<and>
            command \<noteq> SD_SEND_IF_COND \<and> command \<noteq> SD_LOCK_UNLOCK \<and>
            command \<noteq> SD_PROGRAM_CSD
         then (response, snd (Xchg 0xff (Deselect s11)))
         else (response, s11))"

function SD_send_command :: "u8 \<Rightarrow> u32 \<Rightarrow> sd_state \<Rightarrow> u8 \<times> sd_state" where
  "SD_send_command command arg s =
     (if command AND 0x80 \<noteq> 0 then
        (let command' = command AND 0x7f;
             (response, s1) = SD_send_command CMD55 0 s
         in if response > 1 then (response, s1) else SD_send_frame command' arg s1)
      else SD_send_frame command arg s)"
  by pat_completeness auto
termination
  by (relation "measure (\<lambda>(command, arg, s). if command AND 0x80 \<noteq> 0 then 1 else 0)")
    (simp_all add: CMD55_def)

declare SD_send_command.simps [simp del]

text \<open>\<^verbatim>\<open>SD_wait_for_data\<close>: up to 100 exchanges, stopping at the first byte that is not \<open>0xff\<close>.\<close>

fun SD_wait_loop :: "nat \<Rightarrow> u8 \<Rightarrow> sd_state \<Rightarrow> u8 \<times> sd_state" where
  "SD_wait_loop 0 r s = (r, s)"
| "SD_wait_loop (Suc n) r s =
     (let (r1, s1) = Xchg 0xff s
      in if r1 \<noteq> 0xff then (r1, s1) else SD_wait_loop n r1 s1)"

definition SD_wait_for_data :: "sd_state \<Rightarrow> u8 \<times> sd_state" where
  "SD_wait_for_data s = SD_wait_loop 100 0 s"

subsection \<open>Initialisation\<close>

text \<open>\<^verbatim>\<open>for (i=0; i<n; i++) Xchg(0xff);\<close> with the bytes read thrown away.\<close>

fun SDInit_clocks :: "nat \<Rightarrow> sd_state \<Rightarrow> sd_state" where
  "SDInit_clocks 0 s = s"
| "SDInit_clocks (Suc n) s = SDInit_clocks n (snd (Xchg 0xff s))"

text \<open>
  The loop that sends CMD0 up to 10 times and leaves at the first response \<open>0x01\<close>. The
  first argument counts the passes that remain, the second is \<^verbatim>\<open>response\<close>.
\<close>

fun SDInit_idle_loop :: "nat \<Rightarrow> u8 \<Rightarrow> sd_state \<Rightarrow> u8 \<times> sd_state" where
  "SDInit_idle_loop 0 response s = (response, s)"
| "SDInit_idle_loop (Suc n) response s =
     (let (r, s1) = SD_send_command SD_GO_IDLE 0 s
      in if r = 0x01 then (r, s1) else SDInit_idle_loop n r s1)"

text \<open>
  The two polling loops \<^verbatim>\<open>for (i=20000; i>0; i--)\<close>, which differ in the command and its
  argument only: they leave at the first response 0.
\<close>

fun SDInit_poll_loop :: "u8 \<Rightarrow> u32 \<Rightarrow> nat \<Rightarrow> u8 \<Rightarrow> sd_state \<Rightarrow> u8 \<times> sd_state" where
  "SDInit_poll_loop command arg 0 response s = (response, s)"
| "SDInit_poll_loop command arg (Suc n) response s =
     (let (r, s1) = SD_send_command command arg s
      in if r = 0 then (r, s1) else SDInit_poll_loop command arg n r s1)"

text \<open>\<^verbatim>\<open>SDInit\<close> up to the end of the CMD0 loop: the response it ends with and the state.\<close>

definition SDInit_idle :: "sd_state \<Rightarrow> u8 \<times> sd_state" where
  "SDInit_idle s0 =
     (let s1 = s0\<lparr>sdtype := SDTYPE_UNKNOWN\<rparr>;
          s2 = Deselect s1;
          s3 = SDInit_clocks 10 s2
      in SDInit_idle_loop 10 0 s3)"

text \<open>\<^verbatim>\<open>SDInit\<close> from CMD8 to the end of the two detection branches.\<close>

definition SDInit_detect :: "sd_state \<Rightarrow> sd_state" where
  "SDInit_detect s4 =
     (let (response, s5) = SD_send_command SD_SEND_IF_COND 0x1aa s4
      in if response = 0x01 then
           (let s6 = SDInit_clocks 4 s5;
                (response, s7) = SDInit_poll_loop SD_ADV_INIT (push_bit 30 1) 20000 response s6
            in s7\<lparr>sdtype := SDTYPE_SDHC\<rparr>)
         else
           (let (response, s6) = SD_send_command SD_READ_OCR 0 s5
            in if response = 0x01 then
                 (let s7 = SDInit_clocks 4 s6;
                      (response, s8) = SDInit_poll_loop SD_INIT 0 20000 response s7;
                      s9 = snd (SD_send_command SD_SET_BLK_LEN 512 s8)
                  in s9\<lparr>sdtype := SDTYPE_SD\<rparr>)
               else s6))"

definition SDInit :: "sd_state \<Rightarrow> u8 \<times> sd_state" where
  "SDInit s0 =
     (let (response, s4) = SDInit_idle s0
      in if response \<noteq> 0x01 then (SDCARD_NOT_DETECTED, s4)
         else (let s9 = SDInit_detect s4;
                   s10 = snd (Xchg 0xff s9)
               in (SDCARD_OK, s10)))"

subsection \<open>Reading and writing the CSD\<close>

definition ReadCSD :: "sd_state \<Rightarrow> u8 \<times> sd_state" where
  "ReadCSD s0 =
     (let s1 = fold (\<lambda>i s. s\<lparr>csd := (csd s)[i := 0]\<rparr>) [0..<16] s0;
          (response, s2) = SD_send_command SD_SEND_CSD 0 s1;
          (response, s3) = SD_wait_for_data s2
      in if response \<noteq> 0xfe then (SDCARD_RWFAIL, s3)
         else (let s4 = fold (\<lambda>i s. let (b, s') = Xchg 0xff s
                                      in s'\<lparr>csd := (csd s')[i := b]\<rparr>) [0..<16] s3;
                   s5 = snd (Xchg 0xff s4)
               in (SDCARD_OK, s5)))"

text \<open>
  The loop of \<^verbatim>\<open>WriteCSD\<close> over the indices 0 to 14: each byte is sent and then added to
  the CRC. It is \<open>None\<close> when \<^verbatim>\<open>AddByteToCRC\<close> reads past the table.
\<close>

fun WriteCSD_data :: "nat list \<Rightarrow> u8 \<Rightarrow> sd_state \<Rightarrow> (u8 \<times> sd_state) option" where
  "WriteCSD_data [] tcrc s = Some (tcrc, s)"
| "WriteCSD_data (i # idxs) tcrc s =
     (let s1 = snd (Xchg (csd s ! i) s)
      in case AddByteToCRC s1 tcrc (csd s1 ! i) of
           None \<Rightarrow> None
         | Some tcrc' \<Rightarrow> WriteCSD_data idxs tcrc' s1)"

text \<open>
  \<^verbatim>\<open>while (!Xchg(0xff) && (--i));\<close> on the 16-bit counter \<open>i\<close>: a nonzero byte leaves the
  loop before the decrement, a zero byte decrements and leaves when the counter reaches 0.
\<close>

function WriteCSD_busy :: "u16 \<Rightarrow> sd_state \<Rightarrow> u16 \<times> sd_state" where
  "WriteCSD_busy i s =
     (let (r, s1) = Xchg 0xff s
      in if r \<noteq> 0 then (i, s1)
         else (let i' = i - 1 in if i' \<noteq> 0 then WriteCSD_busy i' s1 else (i', s1)))"
  by pat_completeness auto
termination
proof (relation "measure (\<lambda>(i, s). unat (i - 1))")
  show "wf (measure (\<lambda>(i, s). unat (i - 1)))"
    by simp
next
  fix i :: u16 and s :: sd_state and x :: "u8 \<times> sd_state" and r s1 i'
  assume "i' = i - 1" and "i' \<noteq> 0"
  have "unat (w - 1) < unat w" if "w \<noteq> 0" for w :: u16
    using that by (simp add: unat_minus_one unat_gt_0 word_neq_0_conv)
  from this [of i'] \<open>i' \<noteq> 0\<close> have "unat (i' - 1) < unat i'" .
  with \<open>i' = i - 1\<close> show "((i', s1), (i, s)) \<in> measure (\<lambda>(i, s). unat (i - 1))"
    by simp
qed

declare WriteCSD_busy.simps [simp del]

definition WriteCSD :: "sd_state \<Rightarrow> (u8 \<times> sd_state) option" where
  "WriteCSD s0 =
     (let (response, s1) = SD_send_command SD_PROGRAM_CSD 0 s0
      in if response \<noteq> 0 then Some (SDCARD_RWFAIL, s1)
         else (let s2 = snd (Xchg 0xfe s1)
               in case WriteCSD_data [0..<15] 0 s2 of
                    None \<Rightarrow> None
                  | Some (tcrc, s3) \<Rightarrow>
                      (let s4 = snd (Xchg (push_bit 1 tcrc + 1) s3);
                           s5 = snd (Xchg 0xff s4);
                           s6 = snd (Xchg 0xff s5);
                           (i, s7) = WriteCSD_busy 0xffff s6
                       in if i \<noteq> 0 then Some (SDCARD_OK, s7)
                          else Some (SDCARD_TIMEOUT, s7))))"

subsection \<open>The lock bit\<close>

definition CardIsLocked :: "sd_state \<Rightarrow> u8" where
  "CardIsLocked s = csd s ! 14 AND LOCK_BIT_MASK"

text \<open>\<^verbatim>\<open>ToggleState\<close>; it is \<open>None\<close> when \<^verbatim>\<open>WriteCSD\<close> is.\<close>

definition ToggleState :: "sd_state \<Rightarrow> sd_state option" where
  "ToggleState s0 =
     (let s1 = (if CardIsLocked s0 \<noteq> 0
                then s0\<lparr>csd := (csd s0)[14 := csd s0 ! 14 AND NOT LOCK_BIT_MASK]\<rparr>
                else s0\<lparr>csd := (csd s0)[14 := csd s0 ! 14 OR LOCK_BIT_MASK]\<rparr>)
      in case WriteCSD s1 of
           None \<Rightarrow> None
         | Some (r, s2) \<Rightarrow>
             if r \<noteq> SDCARD_OK
             then Some (BlinkLED PATTERN_WERROR (BlinkLED PATTERN_WERROR (BlinkLED PATTERN_WERROR s2)))
             else Some s2)"

section \<open>Vocabulary of the properties\<close>

text \<open>
  The definitions of this section are not functions of the source: they name what the
  properties below talk about.
\<close>

text \<open>The port register after one exchange of the byte \<open>c\<close>: MOSI is left at the level of
  the last bit sent, the clock is low, the other lines are untouched.\<close>

definition Xchg_port :: "u8 \<Rightarrow> u8 \<Rightarrow> u8" where
  "Xchg_port c port = (if bit c 0 then port OR 1 else port AND NOT 1) AND NOT 4"

text \<open>Everything but the port and the wire: the card's stream and the variables in memory.\<close>

definition same_memory :: "sd_state \<Rightarrow> sd_state \<Rightarrow> bool" where
  "same_memory s s' \<longleftrightarrow>
     miso s' = miso s \<and> csd s' = csd s \<and> crctable s' = crctable s \<and> sdtype s' = sdtype s"

text \<open>
  How many exchanges a polling loop makes that starts at position \<open>p\<close> of the card's
  stream, makes at most \<open>n\<close> exchanges and leaves after the first byte satisfying \<open>stop\<close>.
\<close>

fun poll_count :: "(u8 \<Rightarrow> bool) \<Rightarrow> (nat \<Rightarrow> u8) \<Rightarrow> nat \<Rightarrow> nat \<Rightarrow> nat" where
  "poll_count stop m p 0 = 0"
| "poll_count stop m p (Suc n) = (if stop (m p) then 1 else Suc (poll_count stop m (Suc p) n))"

text \<open>
  The six bytes of a command on the wire, in the words of the specification: the opcode
  with bit 6 set, the argument with its most significant byte first, and the CRC byte.
\<close>

definition frame_bytes :: "u8 \<Rightarrow> u32 \<Rightarrow> u8 list" where
  "frame_bytes command arg =
     [0x40 OR command,
      ucast (drop_bit 24 arg), ucast (drop_bit 16 arg), ucast (drop_bit 8 arg), ucast arg,
      (if command = SD_GO_IDLE then 0x95 else if command = SD_SEND_IF_COND then 0x87 else 0x01)]"

text \<open>The commands after which the card stays selected.\<close>

definition keeps_selected :: "u8 \<Rightarrow> bool" where
  "keeps_selected command \<longleftrightarrow>
     command \<in> {SD_READ_BLK, SD_READ_OCR, SD_SEND_CSD, SD_SEND_STATUS, SD_SEND_CID,
                 SD_SEND_IF_COND, SD_LOCK_UNLOCK, SD_PROGRAM_CSD}"

text \<open>
  What one command puts on the wire when its response loop makes \<open>k\<close> exchanges: one idle
  byte with the card deselected, one with the card selected, the six bytes of the
  command, \<open>k\<close> polls, and one more idle byte after the card is released, unless the
  command keeps the card selected.
\<close>

definition command_exchange :: "u8 \<Rightarrow> u32 \<Rightarrow> nat \<Rightarrow> (bool \<times> u8) list" where
  "command_exchange command arg k =
     [(False, 0xff), (True, 0xff)] @ map (Pair True) (frame_bytes command arg) @
     replicate k (True, 0xff) @ (if keeps_selected command then [] else [(False, 0xff)])"

text \<open>The number of polls of the response loop of a command sent from the state \<open>s\<close>.\<close>

definition response_polls :: "sd_state \<Rightarrow> nat" where
  "response_polls s = poll_count (\<lambda>r. r AND 0x80 = 0) (miso s) (length (wire s) + 8) 10"

text \<open>An empty socket: the MISO line is pulled high, so every byte read is \<open>0xff\<close>.\<close>

definition no_card :: sd_state where
  "no_card = \<lparr>PORTB = 0xff, sdtype = 0, csd = replicate 16 0, crctable = replicate 256 0,
               miso = (\<lambda>n. 0xff), wire = []\<rparr>"

text \<open>
  The CRC7 of the SD specification, by long division over GF(2): \<open>crc7_reduce k v\<close>
  clears the bits \<open>k + 6\<close> down to 7 of \<open>v\<close>, from the top, by adding (XOR) the
  generator \<open>x\<^sup>7 + x\<^sup>3 + 1\<close> (\<open>0x89\<close>) shifted below the bit to clear. The CRC7 of one
  byte \<open>i\<close> is the remainder of \<open>i \<cdot> x\<^sup>7\<close>: eight such steps.
\<close>

fun crc7_reduce :: "nat \<Rightarrow> nat \<Rightarrow> nat" where
  "crc7_reduce 0 v = v"
| "crc7_reduce (Suc k) v = crc7_reduce k (if bit v (k + 7) then v XOR push_bit k CRC7_POLY else v)"

definition crc7_of_byte :: "nat \<Rightarrow> nat" where
  "crc7_of_byte i = crc7_reduce 8 (push_bit 7 i)"

definition crc7_table :: "u8 list" where
  "crc7_table = map (\<lambda>i. of_nat (crc7_of_byte i)) [0..<256]"

text \<open>
  The product over GF(2) of the generator \<open>g\<close> and the polynomial made of the \<open>k\<close> lowest
  bits of \<open>q\<close>: the sum (XOR) of the copies of \<open>g\<close> shifted to the bits set in \<open>q\<close>. A
  value \<open>r\<close> is a remainder of \<open>v\<close> by \<open>g\<close> when \<open>v\<close> is such a product plus \<open>r\<close>.
\<close>

fun gf2_times :: "nat \<Rightarrow> nat \<Rightarrow> nat \<Rightarrow> nat" where
  "gf2_times 0 q g = 0"
| "gf2_times (Suc k) q g = gf2_times k q g XOR (if bit q k then push_bit k g else 0)"

text \<open>
  One pass of the inner loop of \<^verbatim>\<open>GenerateCRCTable\<close> on the cell it works on, and the
  value the cell \<open>i\<close> ends with.
\<close>

definition crc7_step :: "u8 \<Rightarrow> u8" where
  "crc7_step c = (let c1 = push_bit 1 c in if c1 AND 0x80 \<noteq> 0 then c1 XOR of_nat CRC7_POLY else c1)"

definition crc7_entry :: "nat \<Rightarrow> u8" where
  "crc7_entry i = (crc7_step ^^ 7) (if i AND 0x80 \<noteq> 0 then of_nat (i XOR CRC7_POLY) else of_nat i)"

text \<open>A card that answers every exchange with the data start token \<open>0xfe\<close>.\<close>

definition token_card :: sd_state where
  "token_card = no_card\<lparr>miso := (\<lambda>n. 0xfe)\<rparr>"

text \<open>
  The CRC7 of a sequence of bytes as the specification folds it: from the running value
  \<open>crc\<close>, each byte \<open>b\<close> leads to the table entry at \<open>(crc << 1) XOR b\<close>.
\<close>

fun crc7_bytes :: "u8 \<Rightarrow> u8 list \<Rightarrow> u8" where
  "crc7_bytes crc [] = crc"
| "crc7_bytes crc (b # bs) = crc7_bytes (crc7_table ! (push_bit 1 (unat crc) XOR unat b)) bs"

text \<open>
  Three cards in a controller whose CRC table has been generated: an empty socket, a card
  that answers every exchange with 0 (it accepts every command and then stays busy), and
  a card that answers the first poll of the first command with 0 and nothing else.
\<close>

definition mute_card :: sd_state where
  "mute_card = no_card\<lparr>crctable := crc7_table\<rparr>"

definition busy_card :: sd_state where
  "busy_card = no_card\<lparr>crctable := crc7_table, miso := (\<lambda>n. 0)\<rparr>"

definition prompt_card :: sd_state where
  "prompt_card = no_card\<lparr>crctable := crc7_table, miso := (\<lambda>n. if n = 8 then 0 else 0xff)\<rparr>"

text \<open>
  \<^verbatim>\<open>SDInit\<close> before its first command: the card type reset, the card deselected, ten idle
  bytes sent.
\<close>

definition SDInit_powerup :: "sd_state \<Rightarrow> sd_state" where
  "SDInit_powerup s = SDInit_clocks 10 (Deselect (s\<lparr>sdtype := SDTYPE_UNKNOWN\<rparr>))"

text \<open>
  The go-idle commands sent one after the other from a state \<open>s\<close>: the state in which
  command number \<open>j\<close> (from 0) is sent, and the response to it.
\<close>

fun go_idle_state :: "nat \<Rightarrow> sd_state \<Rightarrow> sd_state" where
  "go_idle_state 0 s = s"
| "go_idle_state (Suc j) s = go_idle_state j (snd (SD_send_command SD_GO_IDLE 0 s))"

definition go_idle_response :: "nat \<Rightarrow> sd_state \<Rightarrow> u8" where
  "go_idle_response j s = fst (SD_send_command SD_GO_IDLE 0 (go_idle_state j s))"

text \<open>
  A card that answers 0x01 in the exchange numbered 18 from power-up, where the first
  go-idle command of \<^verbatim>\<open>SDInit\<close> polls for its response, and 0x05 (illegal command)
  everywhere else; and a card that answers every exchange with 0x01, so that it is idle
  and never leaves the idle state.
\<close>

definition legacy_reject_card :: sd_state where
  "legacy_reject_card = no_card\<lparr>miso := (\<lambda>n. if n = 18 then 0x01 else 0x05)\<rparr>"

definition ones_card :: sd_state where
  "ones_card = no_card\<lparr>miso := (\<lambda>n. 0x01)\<rparr>"

text \<open>
  Where the polling of \<^verbatim>\<open>ReadCSD\<close> starts in the card's stream, and whether the data start
  token is among the \<open>n\<close> bytes the card has from there on.
\<close>

definition ReadCSD_poll_start :: "sd_state \<Rightarrow> nat" where
  "ReadCSD_poll_start s =
     length (wire (snd (SD_send_command SD_SEND_CSD 0 (s\<lparr>csd := replicate 16 0\<rparr>))))"

definition token_within :: "nat \<Rightarrow> sd_state \<Rightarrow> bool" where
  "token_within n s \<longleftrightarrow> list_ex (\<lambda>j. miso s (ReadCSD_poll_start s + j) = 0xfe) [0..<n]"

text \<open>
  A card that accepts the send-CSD command (response 0 at the first poll), then sends the
  byte \<open>0x05\<close> and only after it the data start token.
\<close>

definition late_token_card :: sd_state where
  "late_token_card =
     no_card\<lparr>miso := (\<lambda>n. if n = 8 then 0 else if n = 9 then 0x05 else if n = 10 then 0xfe else 0xff)\<rparr>"

section \<open>Properties\<close>

subsection \<open>One byte exchange\<close>

lemma and_0x80_iff: "(c AND 0x80 \<noteq> 0) = bit (c::u8) 7"
proof -
  have "(0x80::u8) = 2 ^ 7" by simp
  then show ?thesis by (metis and_exp_eq_0_iff_not_bit)
qed

lemma bit_times2: "bit (a * 2 :: u8) n \<longleftrightarrow> 0 < n \<and> n < 8 \<and> bit a (n - 1)"
proof -
  have "a * 2 = push_bit (Suc 0) a" by simp
  then show ?thesis
    by (simp only: bit_push_bit_iff) (auto simp add: Suc_le_eq dest: bit_imp_le_length)
qed

lemma Xchg_clock_closed:
  "Xchg_clock pin (c, port, seen) =
     (push_bit 1 c OR of_bool pin,
      (if bit c 7 then port OR 1 else port AND NOT 1) AND NOT 4,
      push_bit 1 seen OR of_bool (bit c 7))"
proof -
  have m: "push_bit MOSI_BIT 1 = (1::u8)" and k: "push_bit SCK_BIT 1 = (4::u8)"
    and d: "\<And>x::u8. drop_bit MOSI_BIT x = x"
    by simp_all
  have 1: "push_bit 1 c AND NOT 1 = push_bit 1 c OR of_bool False"
    by (rule bit_eqI) (auto simp add: bit_simps bit_times2)
  have 2: "((port OR 1) OR 4) AND 1 = (of_bool True :: u8)"
    by (rule bit_eqI) (auto simp add: bit_simps)
  have 3: "((port AND NOT 1) OR 4) AND 1 = (of_bool False :: u8)"
    by (rule bit_eqI) (auto simp add: bit_simps)
  have 4: "((port OR 1) OR 4) AND NOT 4 = (port OR 1) AND NOT (4::u8)"
    by (rule bit_eqI) (auto simp add: bit_simps)
  have 5: "((port AND NOT 1) OR 4) AND NOT 4 = (port AND NOT 1) AND NOT (4::u8)"
    by (rule bit_eqI) (auto simp add: bit_simps)
  have 6: "push_bit 1 c OR 1 = push_bit 1 c OR of_bool True"
    by simp
  show ?thesis
    by (cases pin; cases "bit c 7")
       (simp_all only: Xchg_clock_def Let_def split_conv and_0x80_iff if_True if_False
          m k d 1 2 3 4 5 6)
qed

lemma Xchg_port_twice:
  "(if b then (if k = 0 then p else (if b' then p OR 1 else p AND NOT 1) AND NOT 4) OR 1
         else (if k = 0 then p else (if b' then p OR 1 else p AND NOT 1) AND NOT 4) AND NOT 1) AND NOT 4
   = (if b then p OR 1 else p AND NOT 1) AND NOT (4::u8)"
  by (rule bit_eqI) (auto simp add: bit_simps)

lemma Xchg_loop_inv:
  "k \<le> 8 \<Longrightarrow> fold (\<lambda>b. Xchg_clock (bit r (7 - b))) [0..<k] (c, port, 0) =
     (push_bit k c OR drop_bit (8 - k) r,
      (if k = 0 then port else (if bit c (8 - k) then port OR 1 else port AND NOT 1) AND NOT 4),
      drop_bit (8 - k) c)"
proof (induction k)
  case 0
  then show ?case by simp
next
  case (Suc k)
  then have k: "k < 8" by simp
  have e: "\<And>m. Suc (7 + m - k) = 8 + m - k"
    using k by simp
  have b7: "bit (push_bit k c OR drop_bit (8 - k) r) 7 = bit c (7 - k)"
    using k by (auto simp add: bit_simps dest: bit_imp_le_length)
  have c': "push_bit 1 (push_bit k c OR drop_bit (8 - k) r) OR of_bool (bit r (7 - k))
              = push_bit (Suc k) c OR drop_bit (8 - Suc k) r"
  proof (rule bit_eqI)
    fix n assume "possible_bit TYPE(u8) n"
    then show "bit (push_bit 1 (push_bit k c OR drop_bit (8 - k) r) OR of_bool (bit r (7 - k))) n
        = bit (push_bit (Suc k) c OR drop_bit (8 - Suc k) r) n"
      using k by (cases n) (auto simp add: bit_simps bit_times2 e dest: bit_imp_le_length)
  qed
  have s': "push_bit 1 (drop_bit (8 - k) c) OR of_bool (bit c (7 - k)) = drop_bit (8 - Suc k) c"
  proof (rule bit_eqI)
    fix n assume "possible_bit TYPE(u8) n"
    then show "bit (push_bit 1 (drop_bit (8 - k) c) OR of_bool (bit c (7 - k))) n
        = bit (drop_bit (8 - Suc k) c) n"
      using k by (cases n) (auto simp add: bit_simps bit_times2 e dest: bit_imp_le_length)
  qed
  have "fold (\<lambda>b. Xchg_clock (bit r (7 - b))) [0..<Suc k] (c, port, 0) =
        Xchg_clock (bit r (7 - k)) (fold (\<lambda>b. Xchg_clock (bit r (7 - b))) [0..<k] (c, port, 0))"
    by simp
  also have "\<dots> = Xchg_clock (bit r (7 - k)) (push_bit k c OR drop_bit (8 - k) r,
      (if k = 0 then port else (if bit c (8 - k) then port OR 1 else port AND NOT 1) AND NOT 4),
      drop_bit (8 - k) c)"
    using Suc.IH k by simp
  also have "\<dots> = (push_bit (Suc k) c OR drop_bit (8 - Suc k) r,
      (if bit c (7 - k) then port OR 1 else port AND NOT 1) AND NOT 4,
      drop_bit (8 - Suc k) c)"
    by (simp only: Xchg_clock_closed b7 c' s' Xchg_port_twice split: if_split)
  finally show ?case
    by simp
qed

lemma Xchg_byte:
  "Xchg c s = (miso s (length (wire s)),
               s\<lparr>PORTB := Xchg_port c (PORTB s), wire := wire s @ [(selected s, c)]\<rparr>)"
  unfolding Xchg_def Xchg_port_def
  using Xchg_loop_inv [of 8 "miso s (length (wire s))" c "PORTB s"] by simp

lemma bit3_Xchg_port [simp]: "bit (Xchg_port c p) 3 = bit p 3"
  by (simp add: Xchg_port_def bit_simps)

lemma Xchg_fst [simp]: "fst (Xchg c s) = miso s (length (wire s))"
  by (simp add: Xchg_byte)

lemma Xchg_wire [simp]: "wire (snd (Xchg c s)) = wire s @ [(selected s, c)]"
  by (simp add: Xchg_byte)

lemma Xchg_selected [simp]: "selected (snd (Xchg c s)) = selected s"
  by (simp add: Xchg_byte selected_def)

lemma Xchg_miso [simp]: "miso (snd (Xchg c s)) = miso s"
  and Xchg_csd [simp]: "csd (snd (Xchg c s)) = csd s"
  and Xchg_crctable [simp]: "crctable (snd (Xchg c s)) = crctable s"
  and Xchg_sdtype [simp]: "sdtype (snd (Xchg c s)) = sdtype s"
  by (simp_all add: Xchg_byte)

lemma Select_obs [simp]:
  "selected (Select s)" "wire (Select s) = wire s" "miso (Select s) = miso s"
  "csd (Select s) = csd s" "crctable (Select s) = crctable s" "sdtype (Select s) = sdtype s"
  by (simp_all add: Select_def selected_def bit_simps)

lemma Deselect_obs [simp]:
  "\<not> selected (Deselect s)" "wire (Deselect s) = wire s" "miso (Deselect s) = miso s"
  "csd (Deselect s) = csd s" "crctable (Deselect s) = crctable s" "sdtype (Deselect s) = sdtype s"
  by (simp_all add: Deselect_def selected_def bit_simps)

lemma same_memory_refl [simp]: "same_memory s s"
  by (simp add: same_memory_def)

lemma same_memory_trans: "same_memory s s1 \<Longrightarrow> same_memory s1 s2 \<Longrightarrow> same_memory s s2"
  by (simp add: same_memory_def)

lemma same_memory_Xchg [simp]: "same_memory s (snd (Xchg c s))"
  by (simp add: same_memory_def)

lemma poll_count_le: "poll_count stop m p n \<le> n"
  by (induction n arbitrary: p) auto

lemma poll_count_pos: "0 < n \<Longrightarrow> 0 < poll_count stop m p n"
  by (cases n) auto

lemma poll_count_first:
  "k < n \<Longrightarrow> (\<forall>j<k. \<not> stop (m (p + j))) \<Longrightarrow> stop (m (p + k)) \<Longrightarrow>
     poll_count stop m p n = Suc k"
proof (induction k arbitrary: p n)
  case 0
  then show ?case by (cases n) auto
next
  case (Suc k)
  then obtain n' where n: "n = Suc n'" by (cases n) auto
  from Suc.prems have "\<not> stop (m p)" by force
  moreover have "poll_count stop m (Suc p) n' = Suc k"
  proof (rule Suc.IH)
    show "k < n'" using Suc.prems n by simp
    show "\<forall>j<k. \<not> stop (m (Suc p + j))"
      using Suc.prems(2) by (metis Suc_less_eq add_Suc_shift)
    show "stop (m (Suc p + k))" using Suc.prems(3) by simp
  qed
  ultimately show ?case by (simp add: n)
qed

lemma poll_count_none:
  "(\<forall>j<n. \<not> stop (m (p + j))) \<Longrightarrow> poll_count stop m p n = n"
proof (induction n arbitrary: p)
  case 0
  then show ?case by simp
next
  case (Suc n)
  from Suc.prems have "\<not> stop (m p)" by force
  moreover have "poll_count stop m (Suc p) n = n"
  proof (rule Suc.IH)
    show "\<forall>j<n. \<not> stop (m (Suc p + j))"
      using Suc.prems by (metis Suc_less_eq add_Suc_shift)
  qed
  ultimately show ?case by simp
qed

lemma SD_response_loop_wire:
  "wire (snd (SD_response_loop n r s)) =
     wire s @ replicate (poll_count (\<lambda>r. r AND 0x80 = 0) (miso s) (length (wire s)) n) (selected s, 0xff)"
  by (induction n arbitrary: r s) (simp_all add: case_prod_beta Let_def replicate_app_Cons_same)

lemma SD_response_loop_same:
  "same_memory s (snd (SD_response_loop n r s)) \<and> selected (snd (SD_response_loop n r s)) = selected s"
proof (induction n arbitrary: r s)
  case 0
  then show ?case by simp
next
  case (Suc n)
  show ?case
    using Suc [where s = "snd (Xchg 0xff s)" and r = "fst (Xchg 0xff s)"]
    by (auto simp add: case_prod_beta Let_def same_memory_def)
qed

lemma SD_response_loop_fst:
  "0 < n \<Longrightarrow> fst (SD_response_loop n r s) =
     miso s (length (wire s) + poll_count (\<lambda>r. r AND 0x80 = 0) (miso s) (length (wire s)) n - 1)"
proof (induction n arbitrary: r s)
  case 0
  then show ?case by simp
next
  case (Suc n)
  show ?case
  proof (cases "n = 0")
    case True
    then show ?thesis by (simp add: case_prod_beta Let_def)
  next
    case False
    then have "0 < n" by simp
    from Suc.IH [OF this, where s = "snd (Xchg 0xff s)" and r = "fst (Xchg 0xff s)"]
      poll_count_pos [OF this, of "\<lambda>r. r AND 0x80 = 0" "miso s" "Suc (length (wire s))"]
    show ?thesis
      by (simp add: case_prod_beta Let_def)
  qed
qed

lemma response_polls_bounds: "1 \<le> response_polls s" "response_polls s \<le> 10"
  using poll_count_pos [of 10 "\<lambda>r. r AND 0x80 = 0" "miso s" "length (wire s) + 8"]
    poll_count_le [of "\<lambda>r. r AND 0x80 = 0" "miso s" "length (wire s) + 8" 10]
  by (simp_all add: response_polls_def)

lemma ucast_low_byte: "(ucast (arg AND 0xff :: u32) :: u8) = ucast arg"
proof -
  have "(0xff::u32) = mask 8"
    by (simp add: mask_eq_exp_minus_1)
  have "(ucast (arg AND mask 8 :: u32) :: u8) = ucast arg"
    by (intro bit_eqI) (auto simp add: bit_simps)
  then show ?thesis
    by (simp only: \<open>(0xff::u32) = mask 8\<close>)
qed

lemma Suc8: "Suc (Suc (Suc (Suc (Suc (Suc (Suc (Suc n))))))) = n + 8"
  by simp

lemma length_command_exchange:
  "length (command_exchange command arg k) = 8 + k + (if keeps_selected command then 0 else 1)"
  by (simp add: command_exchange_def frame_bytes_def)

lemma SD_send_frame_wire:
  "wire (snd (SD_send_frame command arg s)) =
     wire s @ command_exchange command arg (response_polls s)"
  by (simp add: SD_send_frame_def Let_def case_prod_beta SD_response_loop_wire
      SD_response_loop_same command_exchange_def frame_bytes_def keeps_selected_def
      response_polls_def ucast_low_byte same_memory_def or.commute Suc8 sd_defs)

lemma SD_send_frame_fst:
  "fst (SD_send_frame command arg s) = miso s (length (wire s) + 7 + response_polls s)"
proof -
  have "0 < response_polls s"
    using response_polls_bounds(1) [of s] by simp
  then have e: "length (wire s) + 8 + response_polls s - 1 = length (wire s) + 7 + response_polls s"
    by simp
  have "fst (SD_send_frame command arg s) = miso s (length (wire s) + 8 + response_polls s - 1)"
    by (simp add: SD_send_frame_def Let_def case_prod_beta SD_response_loop_fst
        response_polls_def Suc8)
  with e show ?thesis
    by (simp add: ac_simps)
qed

lemma SD_send_frame_selected:
  "selected (snd (SD_send_frame command arg s)) = keeps_selected command"
  by (simp add: SD_send_frame_def Let_def case_prod_beta SD_response_loop_same keeps_selected_def
      sd_defs)

lemma SD_send_frame_same: "same_memory s (snd (SD_send_frame command arg s))"
proof -
  have "same_memory s (snd (SD_response_loop n r s))" for n r s
    using SD_response_loop_same by simp
  then have "miso (snd (SD_response_loop n r s)) = miso s \<and> csd (snd (SD_response_loop n r s)) = csd s
     \<and> crctable (snd (SD_response_loop n r s)) = crctable s
     \<and> sdtype (snd (SD_response_loop n r s)) = sdtype s" for n r s
    by (simp add: same_memory_def)
  then show ?thesis
    by (simp add: SD_send_frame_def Let_def case_prod_beta same_memory_def)
qed

lemma SD_send_command_plain:
  "command AND 0x80 = 0 \<Longrightarrow> SD_send_command command arg s = SD_send_frame command arg s"
  by (simp add: SD_send_command.simps)

lemma SD_send_command_CMD55: "SD_send_command CMD55 0 s = SD_send_frame CMD55 0 s"
  by (simp add: SD_send_command.simps CMD55_def)

lemma SD_send_command_advanced:
  "command AND 0x80 \<noteq> 0 \<Longrightarrow> SD_send_command command arg s =
     (if fst (SD_send_frame CMD55 0 s) > 1 then SD_send_frame CMD55 0 s
      else SD_send_frame (command AND 0x7f) arg (snd (SD_send_frame CMD55 0 s)))"
  by (subst SD_send_command.simps) (simp add: SD_send_command_CMD55 case_prod_beta Let_def)

lemma SD_send_command_same: "same_memory s (snd (SD_send_command command arg s))"
proof (cases "command AND 0x80 = 0")
  case True
  then show ?thesis by (simp add: SD_send_command_plain SD_send_frame_same)
next
  case False
  then show ?thesis
    using same_memory_trans [OF SD_send_frame_same SD_send_frame_same]
    by (simp add: SD_send_command_advanced SD_send_frame_same)
qed

lemma SD_send_command_plain_exchange:
  assumes "command AND 0x80 = 0"
  shows "wire (snd (SD_send_command command arg s)) =
           wire s @ command_exchange command arg (response_polls s)"
    and "fst (SD_send_command command arg s) = miso s (length (wire s) + 7 + response_polls s)"
    and "selected (snd (SD_send_command command arg s)) = keeps_selected command"
  using assms
  by (simp_all add: SD_send_command_plain SD_send_frame_wire SD_send_frame_fst SD_send_frame_selected)

lemma CMD55_exchange:
  "wire (snd (SD_send_command CMD55 0 s)) = wire s @ command_exchange CMD55 0 (response_polls s)"
  "fst (SD_send_command CMD55 0 s) = miso s (length (wire s) + 7 + response_polls s)"
  "\<not> selected (snd (SD_send_command CMD55 0 s))"
  using SD_send_command_plain_exchange [of CMD55 0 s]
  by (simp_all add: keeps_selected_def sd_defs)

subsection \<open>Commands on the wire\<close>

lemma command_exchange_end:
  assumes "1 \<le> k"
  shows "\<exists>pre. command_exchange command arg k =
           pre @ (if keeps_selected command then [(True, 0xff)] else [(True, 0xff), (False, 0xff)])"
proof -
  from assms obtain k' where k: "k = Suc k'"
    by (cases k) auto
  have r: "replicate (Suc k') (True, 0xff :: u8) = replicate k' (True, 0xff) @ [(True, 0xff)]"
    by (simp add: replicate_append_same)
  have "command_exchange command arg k =
        ([(False, 0xff), (True, 0xff)] @ map (Pair True) (frame_bytes command arg) @
         replicate k' (True, 0xff)) @
        (if keeps_selected command then [(True, 0xff)] else [(True, 0xff), (False, 0xff)])"
    unfolding command_exchange_def k r by simp
  then show ?thesis ..
qed

subsection \<open>The CRC7 table\<close>

lemma crc7_step_bit7: "\<not> bit (crc7_step r) 7"
proof -
  have "\<not> bit (x XOR 137 :: u8) 7" if "bit x 7" for x
    using that by (simp add: bit_simps)
  then show ?thesis
    by (auto simp add: crc7_step_def Let_def and_0x80_iff)
qed

lemma bit_times2_nat: "bit (a * 2 :: nat) n \<longleftrightarrow> 0 < n \<and> bit a (n - 1)"
proof -
  have "a * 2 = push_bit (Suc 0) a" by simp
  then show ?thesis
    by (simp only: bit_push_bit_iff) (auto simp add: Suc_le_eq)
qed

lemma unat_shl1:
  assumes "\<not> bit r 7"
  shows "unat (push_bit 1 r :: u8) = push_bit 1 (unat r)"
proof (rule bit_eqI)
  fix n
  show "bit (unat (push_bit 1 r)) n = bit (push_bit 1 (unat r)) n"
  proof (cases "n < 8")
    case True
    then show ?thesis
      by (auto simp add: bit_simps bit_times2 bit_times2_nat)
  next
    case False
    then have "n = 8 \<or> 8 \<le> n - 1" by auto
    with assms False show ?thesis
      by (auto simp add: bit_simps bit_times2 bit_times2_nat dest: bit_imp_le_length)
  qed
qed

lemma crc7_step_unat:
  assumes "\<not> bit r 7"
  shows "unat (crc7_step r) =
    (if bit (unat r) 6 then push_bit 1 (unat r) XOR CRC7_POLY else push_bit 1 (unat r))"
proof -
  have b: "bit (push_bit 1 r) 7 = bit r 6"
    by (simp add: bit_times2)
  have "unat (push_bit 1 r XOR 137) = push_bit 1 (unat r) XOR 137"
    using unat_shl1 [OF assms] by (simp add: unsigned_xor_eq)
  with unat_shl1 [OF assms] b show ?thesis
    by (simp add: crc7_step_def Let_def and_0x80_iff bit_simps del: push_bit_of_1)
qed

lemma crc7_reduce_funpow:
  "\<not> bit r 7 \<Longrightarrow> crc7_reduce k (push_bit k (unat r)) = unat ((crc7_step ^^ k) r)"
proof (induction k arbitrary: r)
  case 0
  then show ?case by simp
next
  case (Suc k)
  let ?n = "unat r"
  have b: "bit (push_bit (Suc k) ?n) (k + 7) = bit ?n 6"
    by (simp only: bit_push_bit_iff) simp
  have p: "push_bit (Suc k) ?n = push_bit k (push_bit 1 ?n)"
    by (simp add: push_bit_eq_mult)
  have "crc7_reduce (Suc k) (push_bit (Suc k) ?n) =
        crc7_reduce k (if bit ?n 6 then push_bit (Suc k) ?n XOR push_bit k CRC7_POLY
                       else push_bit (Suc k) ?n)"
    by (simp only: crc7_reduce.simps b)
  also have "\<dots> =
        crc7_reduce k (push_bit k (if bit ?n 6 then push_bit 1 ?n XOR CRC7_POLY else push_bit 1 ?n))"
    by (simp only: p push_bit_xor if_distrib [of "push_bit k"])
  also have "\<dots> = crc7_reduce k (push_bit k (unat (crc7_step r)))"
    by (simp only: crc7_step_unat [OF Suc.prems])
  also have "\<dots> = unat ((crc7_step ^^ k) (crc7_step r))"
    by (rule Suc.IH) (rule crc7_step_bit7)
  finally show ?case
    by (simp add: funpow_swap1)
qed

lemma nat_and_0x80_iff: "(i AND 0x80 \<noteq> 0) = bit (i::nat) 7"
proof -
  have "(0x80::nat) = 2 ^ 7" by simp
  then show ?thesis by (metis and_exp_eq_0_iff_not_bit)
qed

lemma crc7_entry_eq:
  assumes "i < 256"
  shows "unat (crc7_entry i) = crc7_of_byte i"
proof -
  let ?r = "(if i AND 0x80 \<noteq> 0 then of_nat (i XOR CRC7_POLY) else of_nat i) :: u8"
  let ?n = "if bit i 7 then i XOR CRC7_POLY else i"
  have x: "i XOR CRC7_POLY < 256"
  proof -
    have "take_bit 8 (i XOR CRC7_POLY) = i XOR CRC7_POLY"
      using assms by (simp add: take_bit_xor take_bit_nat_eq_self)
    then have "i XOR CRC7_POLY < 2 ^ 8"
      by (simp only: take_bit_nat_eq_self_iff)
    then show ?thesis
      by simp
  qed
  have u: "unat ?r = ?n"
    using assms x unfolding nat_and_0x80_iff by (simp add: unat_of_nat)
  have n7: "\<not> bit ?n 7"
    by (simp add: bit_simps)
  have "bit ?r 7 = bit (unat ?r) 7"
    by (simp only: bit_unsigned_iff) simp
  also have "\<dots> = bit ?n 7"
    by (simp only: u)
  finally have nb: "\<not> bit ?r 7"
    using n7 by blast
  have e8: "(8::nat) = Suc 7"
    by simp
  have "crc7_of_byte i =
      crc7_reduce 7 (if bit (push_bit 7 i) (7 + 7) then push_bit 7 i XOR push_bit 7 CRC7_POLY
                     else push_bit 7 i)"
    by (simp only: crc7_of_byte_def e8 crc7_reduce.simps)
  also have "\<dots> = crc7_reduce 7 (push_bit 7 ?n)"
    by (simp add: bit_simps push_bit_xor)
  also have "\<dots> = unat ((crc7_step ^^ 7) ?r)"
    using crc7_reduce_funpow [OF nb, of 7] by (simp only: u)
  finally show ?thesis
    by (simp add: crc7_entry_def)
qed

lemma GenerateCRCTable_j_cell:
  "i < length t \<Longrightarrow> GenerateCRCTable_j i j t = t[i := (crc7_step ^^ (8 - j)) (t ! i)]"
proof (induction i j t rule: GenerateCRCTable_j.induct)
  case (1 i j t)
  show ?case
  proof (cases "j < 8")
    case False
    then show ?thesis
      by (subst GenerateCRCTable_j.simps) simp
  next
    case True
    let ?t1 = "t[i := push_bit 1 (t ! i)]"
    let ?t2 = "t[i := crc7_step (t ! i)]"
    have t2: "(if (?t1 ! i) AND 0x80 \<noteq> 0 then ?t1[i := (?t1 ! i) XOR of_nat CRC7_POLY] else ?t1) = ?t2"
      using "1.prems" by (simp add: crc7_step_def Let_def)
    have "GenerateCRCTable_j i j t = GenerateCRCTable_j i (j + 1) ?t2"
      by (subst GenerateCRCTable_j.simps) (simp only: Let_def t2 True if_True)
    also have "\<dots> = ?t2[i := (crc7_step ^^ (8 - (j + 1))) (?t2 ! i)]"
      using "1.IH" [OF True refl refl, unfolded t2] "1.prems" by simp
    also have "\<dots> = t[i := (crc7_step ^^ (8 - j)) (t ! i)]"
    proof -
      from True have "8 - j = Suc (8 - (j + 1))" by simp
      then show ?thesis
        using "1.prems" by (simp add: funpow_Suc_right del: funpow.simps)
    qed
    finally show ?thesis .
  qed
qed

lemma GenerateCRCTable_i_map:
  "length t = 256 \<Longrightarrow> i \<le> 256 \<Longrightarrow>
     GenerateCRCTable_i i t = take i t @ map crc7_entry [i..<256]"
proof (induction i t rule: GenerateCRCTable_i.induct)
  case (1 i t)
  show ?case
  proof (cases "i < 256")
    case False
    with "1.prems" show ?thesis
      by (subst GenerateCRCTable_i.simps) simp
  next
    case True
    let ?t1 = "t[i := (if i AND 0x80 \<noteq> 0 then of_nat (i XOR CRC7_POLY) else of_nat i)]"
    let ?t2 = "t[i := crc7_entry i]"
    have j: "GenerateCRCTable_j i 1 ?t1 = ?t2"
      using True "1.prems" by (simp add: GenerateCRCTable_j_cell crc7_entry_def)
    have "GenerateCRCTable_i i t = GenerateCRCTable_i (i + 1) ?t2"
      using True j by (subst GenerateCRCTable_i.simps) (simp add: Let_def)
    also have "\<dots> = take (i + 1) ?t2 @ map crc7_entry [i + 1..<256]"
      using "1.IH" [OF True refl] True "1.prems" j by (simp add: Let_def)
    also have "\<dots> = take i t @ map crc7_entry [i..<256]"
      using True "1.prems" by (simp add: take_Suc_conv_app_nth upt_conv_Cons)
    finally show ?thesis .
  qed
qed

lemma crc7_table_entries: "crc7_table = map crc7_entry [0..<256]"
proof -
  have "crc7_entry i = of_nat (crc7_of_byte i)" if "i < 256" for i
    by (simp add: crc7_entry_eq [OF that, symmetric])
  then show ?thesis
    by (simp add: crc7_table_def)
qed

lemma funpow7: "(f ^^ 7) x = f (f (f (f (f (f (f x))))))"
  by (simp add: numeral_eq_Suc)

lemma crc7_entry_0x01: "crc7_entry 1 = 9"
  by (simp add: crc7_entry_def funpow7 crc7_step_def Let_def)

lemma crc7_entry_0x40: "crc7_entry 0x40 = 0x64"
  by (simp add: crc7_entry_def funpow7 crc7_step_def Let_def)

subsection \<open>Reading the CSD\<close>

lemma poll_count_before:
  "j + 1 < poll_count stop m p n \<Longrightarrow> \<not> stop (m (p + j))"
proof (induction n arbitrary: p j)
  case 0
  then show ?case by simp
next
  case (Suc n)
  show ?case
  proof (cases j)
    case 0
    with Suc.prems show ?thesis by (auto split: if_splits)
  next
    case (Suc j')
    with Suc.prems have "j' + 1 < poll_count stop m (Suc p) n"
      by (auto split: if_splits)
    from Suc.IH [OF this] Suc show ?thesis by simp
  qed
qed

lemma poll_count_last:
  "poll_count stop m p n < n \<Longrightarrow> stop (m (p + (poll_count stop m p n - 1)))"
proof (induction n arbitrary: p)
  case 0
  then show ?case by simp
next
  case (Suc n)
  show ?case
  proof (cases "stop (m p)")
    case True
    then show ?thesis by simp
  next
    case False
    with Suc.prems have lt: "poll_count stop m (Suc p) n < n"
      by simp
    then have "0 < n" by simp
    from Suc.IH [OF lt] poll_count_pos [OF this, of stop m "Suc p"] False show ?thesis
      by simp
  qed
qed

lemma SD_wait_loop_wire:
  "wire (snd (SD_wait_loop n r s)) =
     wire s @ replicate (poll_count (\<lambda>r. r \<noteq> 0xff) (miso s) (length (wire s)) n) (selected s, 0xff)"
  by (induction n arbitrary: r s) (simp_all add: case_prod_beta Let_def replicate_app_Cons_same)

lemma SD_wait_loop_same:
  "same_memory s (snd (SD_wait_loop n r s)) \<and> selected (snd (SD_wait_loop n r s)) = selected s"
proof (induction n arbitrary: r s)
  case 0
  then show ?case by simp
next
  case (Suc n)
  show ?case
    using Suc [where s = "snd (Xchg 0xff s)" and r = "fst (Xchg 0xff s)"]
    by (auto simp add: case_prod_beta Let_def same_memory_def)
qed

lemma SD_wait_loop_fst:
  "0 < n \<Longrightarrow> fst (SD_wait_loop n r s) =
     miso s (length (wire s) + (poll_count (\<lambda>r. r \<noteq> 0xff) (miso s) (length (wire s)) n - 1))"
proof (induction n arbitrary: r s)
  case 0
  then show ?case by simp
next
  case (Suc n)
  show ?case
  proof (cases "n = 0")
    case True
    then show ?thesis by (simp add: case_prod_beta Let_def)
  next
    case False
    then have "0 < n" by simp
    from Suc.IH [OF this, where s = "snd (Xchg 0xff s)"]
      poll_count_pos [OF this, of "\<lambda>r. r \<noteq> 0xff" "miso s" "Suc (length (wire s))"]
    show ?thesis
      by (simp add: case_prod_beta Let_def)
  qed
qed

lemma selected_csd_update [simp]: "selected (s\<lparr>csd := x\<rparr>) = selected s"
  by (simp add: selected_def)

lemma ReadCSD_clear:
  "n \<le> length (csd s) \<Longrightarrow>
     fold (\<lambda>i s. s\<lparr>csd := (csd s)[i := 0]\<rparr>) [0..<n] s = s\<lparr>csd := replicate n 0 @ drop n (csd s)\<rparr>"
proof (induction n)
  case 0
  then show ?case by simp
next
  case (Suc n)
  then have "n < length (csd s)" by simp
  then have "(replicate n 0 @ drop n (csd s))[n := 0] = replicate (Suc n) 0 @ drop (Suc n) (csd s)"
    by (simp add: list_update_append replicate_append_same flip: Cons_nth_drop_Suc)
  with Suc show ?case
    by simp
qed

lemma ReadCSD_read:
  "n \<le> length (csd s) \<Longrightarrow>
     (let s' = fold (\<lambda>i s. let (b, s') = Xchg 0xff s in s'\<lparr>csd := (csd s')[i := b]\<rparr>) [0..<n] s
      in wire s' = wire s @ replicate n (selected s, 0xff) \<and>
         csd s' = map (\<lambda>i. miso s (length (wire s) + i)) [0..<n] @ drop n (csd s) \<and>
         miso s' = miso s \<and> selected s' = selected s \<and>
         crctable s' = crctable s \<and> sdtype s' = sdtype s)"
proof (induction n)
  case 0
  then show ?case by simp
next
  case (Suc n)
  then have n: "n < length (csd s)" by simp
  let ?m = "map (\<lambda>i. miso s (length (wire s) + i)) [0..<n]"
  have "(?m @ drop n (csd s))[n := x] = ?m @ [x] @ drop (Suc n) (csd s)" for x
    using n by (simp add: list_update_append flip: Cons_nth_drop_Suc)
  with Suc show ?case
    by (simp add: Let_def case_prod_beta replicate_append_same)
qed

lemma SD_send_command_fields:
  "miso (snd (SD_send_command command arg s)) = miso s"
  "csd (snd (SD_send_command command arg s)) = csd s"
  "crctable (snd (SD_send_command command arg s)) = crctable s"
  "sdtype (snd (SD_send_command command arg s)) = sdtype s"
  using SD_send_command_same [of s command arg] by (simp_all add: same_memory_def)

lemma SD_wait_loop_fields:
  "miso (snd (SD_wait_loop n r s)) = miso s"
  "csd (snd (SD_wait_loop n r s)) = csd s"
  "crctable (snd (SD_wait_loop n r s)) = crctable s"
  "sdtype (snd (SD_wait_loop n r s)) = sdtype s"
  "selected (snd (SD_wait_loop n r s)) = selected s"
  using SD_wait_loop_same [of s n r] by (simp_all add: same_memory_def)

subsection \<open>Writing the CSD\<close>

lemma crc7_entry_bit7: "\<not> bit (crc7_entry i) 7"
proof -
  have "crc7_entry i = crc7_step ((crc7_step ^^ 6)
      (if i AND 0x80 \<noteq> 0 then of_nat (i XOR CRC7_POLY) else of_nat i))"
    by (simp add: crc7_entry_def numeral_eq_Suc)
  then show ?thesis
    by (simp only: crc7_step_bit7 not_False_eq_True)
qed

lemma xor_less_256:
  assumes "a < 256" and "b < 256"
  shows "a XOR b < (256::nat)"
proof -
  have "take_bit 8 (a XOR b) = a XOR b"
    using assms by (simp add: take_bit_xor take_bit_nat_eq_self)
  then have "a XOR b < 2 ^ 8"
    by (simp only: take_bit_nat_eq_self_iff)
  then show ?thesis
    by simp
qed

lemma crc7_index_less:
  assumes "\<not> bit crc 7"
  shows "push_bit 1 (unat (crc :: u8)) XOR unat (b :: u8) < 256"
proof -
  have "unat (push_bit 1 crc) < 2 ^ 8" and "unat b < 2 ^ 8"
    using unsigned_less [of "push_bit 1 crc"] unsigned_less [of b] by simp_all
  then have "push_bit 1 (unat crc) < 256" and "unat b < 256"
    by (simp_all only: unat_shl1 [OF assms]) simp_all
  then show ?thesis
    by (rule xor_less_256)
qed

lemma AddByteToCRC_table:
  assumes "crctable s = crc7_table" and "\<not> bit crc 7"
  shows "AddByteToCRC s crc b = Some (crc7_table ! (push_bit 1 (unat crc) XOR unat b))"
    and "\<not> bit (crc7_table ! (push_bit 1 (unat crc) XOR unat b)) 7"
  using crc7_index_less [OF assms(2), of b] assms(1)
  by (simp_all add: AddByteToCRC_def Let_def crc7_table_entries crc7_entry_bit7 del: push_bit_of_1)

lemma crc7_bytes_bit7: "\<not> bit crc 7 \<Longrightarrow> \<not> bit (crc7_bytes crc bs) 7"
proof (induction bs arbitrary: crc)
  case Nil
  then show ?case by simp
next
  case (Cons b bs)
  have "\<not> bit (crc7_table ! (push_bit 1 (unat crc) XOR unat b)) 7"
    using crc7_index_less [OF Cons.prems, of b]
    by (simp add: crc7_table_entries crc7_entry_bit7 del: push_bit_of_1)
  from Cons.IH [OF this] show ?case
    by simp
qed

lemma WriteCSD_data_run:
  assumes "crctable s = crc7_table" and "\<not> bit tcrc 7" and "\<forall>i\<in>set idxs. i < length (csd s)"
  shows "\<exists>s'. WriteCSD_data idxs tcrc s = Some (crc7_bytes tcrc (map ((!) (csd s)) idxs), s') \<and>
           wire s' = wire s @ map (\<lambda>i. (selected s, csd s ! i)) idxs \<and>
           selected s' = selected s \<and> same_memory s s'"
  using assms
proof (induction idxs arbitrary: tcrc s)
  case Nil
  then show ?case by simp
next
  case (Cons i idxs)
  let ?s1 = "snd (Xchg (csd s ! i) s)"
  let ?t = "crc7_table ! (push_bit 1 (unat tcrc) XOR unat (csd s ! i))"
  have t: "crctable ?s1 = crc7_table"
    using Cons.prems(1) by simp
  from AddByteToCRC_table [OF t Cons.prems(2), of "csd s ! i"]
  have a: "AddByteToCRC ?s1 tcrc (csd ?s1 ! i) = Some ?t" and nb: "\<not> bit ?t 7"
    by simp_all
  have "\<forall>i\<in>set idxs. i < length (csd ?s1)"
    using Cons.prems(3) by simp
  from Cons.IH [OF t nb this] obtain s' where
    run: "WriteCSD_data idxs ?t ?s1 = Some (crc7_bytes ?t (map ((!) (csd ?s1)) idxs), s')"
    and w: "wire s' = wire ?s1 @ map (\<lambda>i. (selected ?s1, csd ?s1 ! i)) idxs"
    and sel: "selected s' = selected ?s1" and mem: "same_memory ?s1 s'"
    by blast
  have "WriteCSD_data (i # idxs) tcrc s = Some (crc7_bytes tcrc (map ((!) (csd s)) (i # idxs)), s')"
    using run a by (simp add: Let_def del: push_bit_of_1)
  moreover have "wire s' = wire s @ map (\<lambda>i. (selected s, csd s ! i)) (i # idxs)"
    using w by simp
  moreover have "selected s' = selected s"
    using sel by simp
  moreover have "same_memory s s'"
    using mem by (simp add: same_memory_def)
  ultimately show ?case
    by blast
qed

lemma WriteCSD_busy_run:
  "unat i = Suc n \<Longrightarrow>
     wire (snd (WriteCSD_busy i s)) =
       wire s @ replicate (poll_count (\<lambda>r. r \<noteq> 0) (miso s) (length (wire s)) (Suc n))
                  (selected s, 0xff) \<and>
     selected (snd (WriteCSD_busy i s)) = selected s \<and>
     same_memory s (snd (WriteCSD_busy i s)) \<and>
     (fst (WriteCSD_busy i s) \<noteq> 0 \<longleftrightarrow>
        miso s (length (wire s) +
                (poll_count (\<lambda>r. r \<noteq> 0) (miso s) (length (wire s)) (Suc n) - 1)) \<noteq> 0)"
proof (induction n arbitrary: i s)
  case 0
  then have "i \<noteq> 0" by auto
  with 0 have "unat (i - 1) = 0"
    by (simp add: unat_minus_one)
  then have "i - 1 = 0"
    by (simp add: unat_eq_0)
  with \<open>i \<noteq> 0\<close> show ?case
    by (subst (1 2 3 4) WriteCSD_busy.simps) (simp add: Let_def case_prod_beta)
next
  case (Suc n)
  then have nz: "i \<noteq> 0" by auto
  with Suc.prems have u: "unat (i - 1) = Suc n"
    by (simp add: unat_minus_one)
  then have nz': "i - 1 \<noteq> 0" by auto
  let ?s1 = "snd (Xchg 0xff s)"
  show ?case
  proof (cases "miso s (length (wire s)) = 0")
    case False
    with nz show ?thesis
      by (subst (1 2 3 4) WriteCSD_busy.simps) (simp add: Let_def case_prod_beta)
  next
    case True
    then have step: "WriteCSD_busy i s = WriteCSD_busy (i - 1) ?s1"
      using nz' by (subst WriteCSD_busy.simps) (simp add: Let_def case_prod_beta)
    have "0 < poll_count (\<lambda>r. r \<noteq> 0) (miso s) (Suc (length (wire s))) (Suc n)"
      by (rule poll_count_pos) simp
    with Suc.IH [OF u, of ?s1] True show ?thesis
      unfolding step by (simp add: same_memory_def replicate_app_Cons_same)
  qed
qed

lemma map_nth_upt_take: "n \<le> length xs \<Longrightarrow> map ((!) xs) [0..<n] = take n xs"
  by (rule nth_equalityI) simp_all

lemma shl1_plus_1: "push_bit 1 (t :: u8) + 1 = push_bit 1 t OR 1"
proof -
  have "even (push_bit 1 t)"
    by simp
  then show ?thesis
    by (simp only: or_one_eq of_bool_eq(2) if_True)
qed

lemma times2_plus_1: "(t :: u8) * 2 + 1 = t * 2 OR 1"
  using shl1_plus_1 [of t] by simp

lemma WriteCSD_rejected:
  assumes "fst (SD_send_command SD_PROGRAM_CSD 0 s) \<noteq> 0"
  shows "WriteCSD s = Some (SDCARD_RWFAIL, snd (SD_send_command SD_PROGRAM_CSD 0 s))"
  using assms by (simp add: WriteCSD_def case_prod_beta Let_def)

lemma WriteCSD_accepted:
  assumes len: "length (csd s) = 16" and tab: "crctable s = crc7_table"
    and ok: "fst (SD_send_command SD_PROGRAM_CSD 0 s) = 0"
  defines "s1 \<equiv> snd (SD_send_command SD_PROGRAM_CSD 0 s)"
  defines "k \<equiv> poll_count (\<lambda>r. r \<noteq> 0) (miso s) (length (wire s1) + 19) 65535"
  shows "\<exists>s'. WriteCSD s =
            Some (if miso s (length (wire s1) + 19 + (k - 1)) \<noteq> 0 then SDCARD_OK
                  else SDCARD_TIMEOUT, s') \<and>
          wire s' = wire s1 @
            map (Pair True) ([0xfe] @ take 15 (csd s) @
              [push_bit 1 (crc7_bytes 0 (take 15 (csd s))) OR 1, 0xff, 0xff]) @
            replicate k (True, 0xff) \<and>
          selected s' \<and> same_memory s s'"
proof -
  let ?tcrc = "crc7_bytes 0 (take 15 (csd s))"
  have sel1: "selected s1" and mem1: "same_memory s s1"
    by (simp_all add: s1_def SD_send_command_plain SD_send_frame_selected keeps_selected_def
        sd_defs SD_send_frame_same)
  define s2 where "s2 = snd (Xchg 0xfe s1)"
  have w2: "wire s2 = wire s1 @ [(True, 0xfe)]" and sel2: "selected s2" and mem2: "same_memory s s2"
    using sel1 mem1 by (simp_all add: s2_def same_memory_def)
  have "\<forall>i\<in>set [0..<15]. i < length (csd s2)"
    using mem2 len by (simp add: same_memory_def)
  moreover have "crctable s2 = crc7_table"
    using mem2 tab by (simp add: same_memory_def)
  moreover have "\<not> bit (0::u8) 7"
    by simp
  ultimately obtain s3 where
    run3: "WriteCSD_data [0..<15] 0 s2 = Some (crc7_bytes 0 (map ((!) (csd s2)) [0..<15]), s3)"
    and w3': "wire s3 = wire s2 @ map (\<lambda>i. (selected s2, csd s2 ! i)) [0..<15]"
    and sel3': "selected s3 = selected s2" and mem3': "same_memory s2 s3"
    using WriteCSD_data_run [of s2 0 "[0..<15]"] by blast
  have c2: "csd s2 = csd s"
    using mem2 by (simp add: same_memory_def)
  have tk: "map ((!) (csd s)) [0..<15] = take 15 (csd s)"
    using len by (simp add: map_nth_upt_take)
  have run3: "WriteCSD_data [0..<15] 0 s2 = Some (?tcrc, s3)"
    using run3 by (simp only: c2 tk)
  have "map (\<lambda>i. (True, csd s ! i)) [0..<15] = map (Pair True) (map ((!) (csd s)) [0..<15])"
    by (simp only: map_map comp_def)
  then have w3: "wire s3 = wire s2 @ map (Pair True) (take 15 (csd s))"
    using w3' sel2 by (simp only: c2 tk eqTrueI [OF sel2])
  have sel3: "selected s3" and mem3: "same_memory s s3"
    using sel3' sel2 mem3' mem2 by (simp_all add: same_memory_def)
  define s6 where
    "s6 = snd (Xchg 0xff (snd (Xchg 0xff (snd (Xchg (push_bit 1 ?tcrc + 1) s3)))))"
  have w6: "wire s6 = wire s3 @ [(True, push_bit 1 ?tcrc OR 1), (True, 0xff), (True, 0xff)]"
    and sel6: "selected s6" and mem6: "same_memory s s6"
    using sel3 mem3 by (simp_all add: s6_def same_memory_def times2_plus_1)
  have l6: "length (wire s6) = length (wire s1) + 19"
    using len by (simp add: w6 w3 w2)
  have m6: "miso s6 = miso s"
    using mem6 by (simp add: same_memory_def)
  have u: "unat (0xffff :: u16) = Suc 65534"
    by simp
  define s7 where "s7 = snd (WriteCSD_busy 0xffff s6)"
  from WriteCSD_busy_run [OF u, of s6]
  have w7: "wire s7 = wire s6 @ replicate k (True, 0xff)"
    and sel7: "selected s7" and mem7: "same_memory s6 s7"
    and r7: "fst (WriteCSD_busy 0xffff s6) \<noteq> 0 \<longleftrightarrow> miso s (length (wire s1) + 19 + (k - 1)) \<noteq> 0"
    using sel6 by (simp_all add: s7_def l6 m6 k_def)
  have "WriteCSD s = Some (if fst (WriteCSD_busy 0xffff s6) \<noteq> 0 then SDCARD_OK
                           else SDCARD_TIMEOUT, s7)"
    using ok run3
    by (simp add: WriteCSD_def case_prod_beta Let_def s1_def s2_def s6_def s7_def)
  moreover have "wire s7 = wire s1 @
            map (Pair True) ([0xfe] @ take 15 (csd s) @ [push_bit 1 ?tcrc OR 1, 0xff, 0xff]) @
            replicate k (True, 0xff)"
    by (simp add: w7 w6 w3 w2 del: push_bit_of_1)
  moreover have "same_memory s s7"
    using mem6 mem7 by (rule same_memory_trans)
  ultimately show ?thesis
    using sel7 r7 by auto
qed

lemma PROGRAM_CSD_response:
  "fst (SD_send_command SD_PROGRAM_CSD 0 s) = miso s (length (wire s) + 7 + response_polls s)"
  by (rule SD_send_command_plain_exchange(2)) (simp add: sd_defs)

lemma response_polls_prompt_card: "response_polls prompt_card = 1"
proof -
  have "poll_count (\<lambda>r. r AND 0x80 = 0) (miso prompt_card) (length (wire prompt_card) + 8) 10 = Suc 0"
    by (rule poll_count_first) (simp_all add: prompt_card_def no_card_def)
  then show ?thesis
    by (simp add: response_polls_def)
qed

subsection \<open>Toggling the lock bit\<close>

lemma TURN_LED_fields [simp]:
  "csd (TURN_LED_ON s) = csd s" "csd (TURN_LED_OFF s) = csd s"
  "crctable (TURN_LED_ON s) = crctable s" "crctable (TURN_LED_OFF s) = crctable s"
  "wire (TURN_LED_ON s) = wire s" "wire (TURN_LED_OFF s) = wire s"
  "miso (TURN_LED_ON s) = miso s" "miso (TURN_LED_OFF s) = miso s"
  "sdtype (TURN_LED_ON s) = sdtype s" "sdtype (TURN_LED_OFF s) = sdtype s"
  by (simp_all add: TURN_LED_ON_def TURN_LED_OFF_def)

lemma BlinkLED_loop_fields:
  "csd (BlinkLED_loop n pattern s) = csd s \<and> crctable (BlinkLED_loop n pattern s) = crctable s \<and>
   wire (BlinkLED_loop n pattern s) = wire s \<and> miso (BlinkLED_loop n pattern s) = miso s \<and>
   sdtype (BlinkLED_loop n pattern s) = sdtype s"
  by (induction n arbitrary: pattern s) (simp_all add: Let_def)

lemma BlinkLED_fields [simp]:
  "csd (BlinkLED pattern s) = csd s" "crctable (BlinkLED pattern s) = crctable s"
  "wire (BlinkLED pattern s) = wire s" "miso (BlinkLED pattern s) = miso s"
  "sdtype (BlinkLED pattern s) = sdtype s"
  using BlinkLED_loop_fields [of 32 pattern s] by (simp_all add: BlinkLED_def)

lemma bit_16_int: "bit (16 :: int) n \<longleftrightarrow> n = 4"
proof -
  have "bit (2 ^ 4 :: int) n \<longleftrightarrow> n = 4"
    by (simp only: bit_exp_iff) auto
  then show ?thesis by simp
qed

lemma bit_not_16_int: "bit (- 17 :: int) n \<longleftrightarrow> n \<noteq> 4"
proof -
  have "(- 17 :: int) = NOT 16"
    by (simp add: not_int_def)
  then show ?thesis
    by (simp only: bit_not_iff bit_16_int) simp
qed

lemma lock_bit_flip_16: "(if bit x 4 then x AND NOT 16 else x OR 16) = x XOR (16 :: u8)"
proof (rule bit_eqI)
  fix n
  show "bit (if bit x 4 then x AND NOT 16 else x OR 16) n = bit (x XOR 16) n"
    by (cases "n = 4")
      (auto simp add: bit_and_iff bit_or_iff bit_xor_iff bit_not_iff bit_16_int bit_not_16_int
        dest: bit_imp_le_length)
qed

lemma lock_bit_test: "(x AND LOCK_BIT_MASK \<noteq> 0) = bit (x :: u8) 4"
proof -
  have "LOCK_BIT_MASK = 2 ^ 4"
    by simp
  then show ?thesis
    by (metis and_exp_eq_0_iff_not_bit)
qed

lemma lock_bit_flip:
  "(if x AND LOCK_BIT_MASK \<noteq> 0 then x AND NOT LOCK_BIT_MASK else x OR LOCK_BIT_MASK)
     = x XOR LOCK_BIT_MASK"
  using lock_bit_flip_16 [of x] unfolding lock_bit_test by (cases "bit x 4") simp_all

lemma WriteCSD_total:
  assumes "length (csd s) = 16" and "crctable s = crc7_table"
  shows "\<exists>r s'. WriteCSD s = Some (r, s') \<and> same_memory s s' \<and>
           (r = SDCARD_RWFAIL \<longleftrightarrow> fst (SD_send_command SD_PROGRAM_CSD 0 s) \<noteq> 0)"
proof (cases "fst (SD_send_command SD_PROGRAM_CSD 0 s) = 0")
  case True
  from WriteCSD_accepted [OF assms True] True show ?thesis
    by (auto simp add: sd_defs)
next
  case False
  from WriteCSD_rejected [OF False] False SD_send_command_same [of s SD_PROGRAM_CSD 0]
  show ?thesis
    by simp
qed

lemma ToggleState_run:
  assumes "length (csd s) = 16" and "crctable s = crc7_table"
  shows "\<exists>r s2 s'.
     WriteCSD (s\<lparr>csd := (csd s)[14 := csd s ! 14 XOR LOCK_BIT_MASK]\<rparr>) = Some (r, s2) \<and>
     ToggleState s = Some s' \<and>
     s' = (if r \<noteq> SDCARD_OK
           then BlinkLED PATTERN_WERROR (BlinkLED PATTERN_WERROR (BlinkLED PATTERN_WERROR s2))
           else s2) \<and>
     csd s' = (csd s)[14 := csd s ! 14 XOR LOCK_BIT_MASK] \<and>
     crctable s' = crc7_table \<and> miso s' = miso s"
proof -
  let ?f = "s\<lparr>csd := (csd s)[14 := csd s ! 14 XOR LOCK_BIT_MASK]\<rparr>"
  have f: "(if CardIsLocked s \<noteq> 0
            then s\<lparr>csd := (csd s)[14 := csd s ! 14 AND NOT LOCK_BIT_MASK]\<rparr>
            else s\<lparr>csd := (csd s)[14 := csd s ! 14 OR LOCK_BIT_MASK]\<rparr>) = ?f"
    using lock_bit_flip [of "csd s ! 14"] by (auto simp add: CardIsLocked_def)
  have "length (csd ?f) = 16" and "crctable ?f = crc7_table"
    using assms by simp_all
  from WriteCSD_total [OF this] obtain r s2 where
    w: "WriteCSD ?f = Some (r, s2)" and mem: "same_memory ?f s2"
    by blast
  have "ToggleState s = Some (if r \<noteq> SDCARD_OK
           then BlinkLED PATTERN_WERROR (BlinkLED PATTERN_WERROR (BlinkLED PATTERN_WERROR s2))
           else s2)"
    unfolding ToggleState_def f Let_def w by simp
  with w mem assms show ?thesis
    by (simp add: same_memory_def)
qed

subsection \<open>Initialisation\<close>

lemma SDInit_clocks_obs:
  "wire (SDInit_clocks n s) = wire s @ replicate n (selected s, 0xff) \<and>
   selected (SDInit_clocks n s) = selected s \<and> same_memory s (SDInit_clocks n s)"
proof (induction n arbitrary: s)
  case 0
  then show ?case by simp
next
  case (Suc n)
  from Suc [of "snd (Xchg 0xff s)"] show ?case
    by (simp add: same_memory_def replicate_app_Cons_same)
qed

lemma SDInit_idle_loop_same: "same_memory s (snd (SDInit_idle_loop n r s))"
proof (induction n arbitrary: r s)
  case 0
  then show ?case by simp
next
  case (Suc n)
  show ?case
    using Suc [of "snd (SD_send_command SD_GO_IDLE 0 s)"] SD_send_command_same [of s SD_GO_IDLE 0]
    by (auto simp add: case_prod_beta Let_def intro: same_memory_trans)
qed

lemma SDInit_poll_loop_same: "same_memory s (snd (SDInit_poll_loop command arg n r s))"
proof (induction n arbitrary: r s)
  case 0
  then show ?case by simp
next
  case (Suc n)
  show ?case
    using Suc [of "snd (SD_send_command command arg s)"] SD_send_command_same [of s command arg]
    by (auto simp add: case_prod_beta Let_def intro: same_memory_trans)
qed

lemma SDInit_idle_loop_found:
  "fst (SDInit_idle_loop n r s) = 0x01 \<longleftrightarrow>
     (n = 0 \<and> r = 0x01) \<or> (\<exists>j<n. go_idle_response j s = 0x01)"
proof (induction n arbitrary: r s)
  case 0
  then show ?case by simp
next
  case (Suc n)
  let ?r = "fst (SD_send_command SD_GO_IDLE 0 s)"
  let ?s1 = "snd (SD_send_command SD_GO_IDLE 0 s)"
  show ?case
  proof (cases "?r = 0x01")
    case True
    then have "go_idle_response 0 s = 0x01"
      by (simp add: go_idle_response_def)
    with True show ?thesis
      by (auto simp add: case_prod_beta Let_def)
  next
    case False
    have shift: "go_idle_response j ?s1 = go_idle_response (Suc j) s" for j
      by (simp add: go_idle_response_def)
    have "(\<exists>j<Suc n. go_idle_response j s = 0x01) \<longleftrightarrow> (\<exists>j<n. go_idle_response j ?s1 = 0x01)"
    proof
      assume "\<exists>j<Suc n. go_idle_response j s = 0x01"
      then obtain j where j: "j < Suc n" "go_idle_response j s = 0x01"
        by blast
      with False obtain j' where "j = Suc j'"
        by (cases j) (auto simp add: go_idle_response_def)
      with j show "\<exists>j<n. go_idle_response j ?s1 = 0x01"
        by (auto simp add: shift)
    next
      assume "\<exists>j<n. go_idle_response j ?s1 = 0x01"
      then show "\<exists>j<Suc n. go_idle_response j s = 0x01"
        by (auto simp add: shift)
    qed
    with False Suc [of ?r ?s1] show ?thesis
      by (auto simp add: case_prod_beta Let_def)
  qed
qed

lemma SDInit_idle_eq: "SDInit_idle s = SDInit_idle_loop 10 0 (SDInit_powerup s)"
  by (simp add: SDInit_idle_def SDInit_powerup_def Let_def)

lemma SDInit_idle_sdtype: "sdtype (snd (SDInit_idle s)) = SDTYPE_UNKNOWN"
  using SDInit_idle_loop_same [of "SDInit_powerup s" 10 0]
    SDInit_clocks_obs [of 10 "Deselect (s\<lparr>sdtype := SDTYPE_UNKNOWN\<rparr>)"]
  by (simp add: SDInit_idle_eq SDInit_powerup_def same_memory_def)

lemma SDInit_fst:
  "fst (SDInit s) = (if fst (SDInit_idle s) \<noteq> 0x01 then SDCARD_NOT_DETECTED else SDCARD_OK)"
  by (simp add: SDInit_def case_prod_beta Let_def)

lemma SDInit_sdtype:
  "sdtype (snd (SDInit s)) =
     (if fst (SDInit_idle s) \<noteq> 0x01 then SDTYPE_UNKNOWN
      else sdtype (SDInit_detect (snd (SDInit_idle s))))"
  by (simp add: SDInit_def case_prod_beta Let_def SDInit_idle_sdtype)

lemma SDInit_detect_sdtype:
  "sdtype (SDInit_detect s4) =
     (if fst (SD_send_command SD_SEND_IF_COND 0x1aa s4) = 0x01 then SDTYPE_SDHC
      else if fst (SD_send_command SD_READ_OCR 0 (snd (SD_send_command SD_SEND_IF_COND 0x1aa s4))) = 0x01
           then SDTYPE_SD
           else sdtype s4)"
  by (simp add: SDInit_detect_def case_prod_beta Let_def SD_send_command_fields)

lemma SD_send_frame_grows:
  "length (wire s) + 9 \<le> length (wire (snd (SD_send_frame command arg s)))"
  using response_polls_bounds(1) [of s]
  by (simp add: SD_send_frame_wire length_command_exchange)

lemma SD_send_command_grows:
  "length (wire s) + 9 \<le> length (wire (snd (SD_send_command command arg s)))"
proof (cases "command AND 0x80 = 0")
  case True
  then show ?thesis
    by (simp add: SD_send_command_plain SD_send_frame_grows)
next
  case False
  show ?thesis
    using SD_send_frame_grows [of s CMD55 0]
      SD_send_frame_grows [of "snd (SD_send_frame CMD55 0 s)" "command AND 0x7f" arg]
    by (simp add: SD_send_command_advanced [OF False])
qed

lemma SDInit_idle_loop_grows:
  "0 < n \<Longrightarrow> length (wire s) + 9 \<le> length (wire (snd (SDInit_idle_loop n r s)))"
proof (induction n arbitrary: r s)
  case 0
  then show ?case by simp
next
  case (Suc n)
  let ?s1 = "snd (SD_send_command SD_GO_IDLE 0 s)"
  have g: "length (wire s) + 9 \<le> length (wire ?s1)"
    by (rule SD_send_command_grows)
  show ?case
  proof (cases "n = 0")
    case True
    with g show ?thesis
      by (simp add: case_prod_beta Let_def)
  next
    case False
    then have "length (wire ?s1) + 9 \<le>
        length (wire (snd (SDInit_idle_loop n (fst (SD_send_command SD_GO_IDLE 0 s)) ?s1)))"
      using Suc.IH by simp
    with g show ?thesis
      by (simp add: case_prod_beta Let_def)
  qed
qed

lemma plain_response:
  "command AND 0x80 = 0 \<Longrightarrow>
     fst (SD_send_command command arg s) = miso s (length (wire s) + 7 + response_polls s)"
  by (rule SD_send_command_plain_exchange(2))

lemma SDInit_powerup_obs:
  "wire (SDInit_powerup s) = wire s @ replicate 10 (False, 0xff)"
  "miso (SDInit_powerup s) = miso s"
  using SDInit_clocks_obs [of 10 "Deselect (s\<lparr>sdtype := SDTYPE_UNKNOWN\<rparr>)"]
  by (simp_all add: SDInit_powerup_def same_memory_def)

lemma go_idle_state_miso: "miso (go_idle_state j s) = miso s"
  by (induction j arbitrary: s) (simp_all add: SD_send_command_fields)

lemma go_idle_response_no_card: "go_idle_response j (SDInit_powerup no_card) = 0xff"
proof -
  have "SD_GO_IDLE AND 0x80 = 0"
    by (simp add: sd_defs)
  from plain_response [OF this] show ?thesis
    by (simp add: go_idle_response_def go_idle_state_miso SDInit_powerup_obs)
      (simp add: no_card_def)
qed

lemma response_polls_first:
  "miso s (length (wire s) + 8) AND 0x80 = 0 \<Longrightarrow> response_polls s = 1"
  using poll_count_first [of 0 10 "\<lambda>r. r AND 0x80 = 0" "miso s" "length (wire s) + 8"]
  by (simp add: response_polls_def)

lemma SDInit_idle_obs:
  "miso (snd (SDInit_idle s)) = miso s"
  "length (wire s) + 19 \<le> length (wire (snd (SDInit_idle s)))"
proof -
  show "miso (snd (SDInit_idle s)) = miso s"
    using SDInit_idle_loop_same [of "SDInit_powerup s" 10 0]
    by (simp add: SDInit_idle_eq same_memory_def SDInit_powerup_obs)
  have "length (wire (SDInit_powerup s)) + 9 \<le> length (wire (snd (SDInit_idle s)))"
    unfolding SDInit_idle_eq by (rule SDInit_idle_loop_grows) simp
  then show "length (wire s) + 19 \<le> length (wire (snd (SDInit_idle s)))"
    by (simp add: SDInit_powerup_obs)
qed

lemma legacy_reject_card_idle: "fst (SDInit_idle legacy_reject_card) = 0x01"
proof -
  let ?s0 = "SDInit_powerup legacy_reject_card"
  have m: "miso ?s0 = (\<lambda>n. if n = 18 then 0x01 else 0x05)" and l: "length (wire ?s0) = 10"
    by (simp_all add: SDInit_powerup_obs legacy_reject_card_def no_card_def)
  have p: "response_polls ?s0 = 1"
    by (rule response_polls_first) (simp add: m l)
  have "SD_GO_IDLE AND 0x80 = 0"
    by (simp add: sd_defs)
  from plain_response [OF this, of 0 ?s0] have "go_idle_response 0 ?s0 = 0x01"
    by (simp add: go_idle_response_def p m l)
  then have "\<exists>j<10. go_idle_response j ?s0 = 0x01"
    by (intro exI [of _ 0]) simp
  then show ?thesis
    by (simp add: SDInit_idle_eq SDInit_idle_loop_found)
qed

lemma legacy_reject_card_response:
  assumes "miso s = (\<lambda>n. if n = 18 then 0x01 else 0x05)" and "19 \<le> length (wire s)"
    and "command AND 0x80 = 0"
  shows "fst (SD_send_command command arg s) = 0x05"
  using assms(2) by (simp add: plain_response [OF assms(3)] assms(1))

lemma legacy_reject_card_SDInit:
  "fst (SDInit legacy_reject_card) = SDCARD_OK"
  "sdtype (snd (SDInit legacy_reject_card)) = SDTYPE_UNKNOWN"
proof -
  let ?s4 = "snd (SDInit_idle legacy_reject_card)"
  let ?s5 = "snd (SD_send_command SD_SEND_IF_COND 0x1aa ?s4)"
  have m4: "miso ?s4 = (\<lambda>n. if n = 18 then 0x01 else 0x05)" and l4: "19 \<le> length (wire ?s4)"
    using SDInit_idle_obs [of legacy_reject_card]
    by (simp_all add: legacy_reject_card_def)
  have m5: "miso ?s5 = (\<lambda>n. if n = 18 then 0x01 else 0x05)" and l5: "19 \<le> length (wire ?s5)"
    using SD_send_command_grows [of ?s4 SD_SEND_IF_COND "0x1aa"] l4
    by (simp_all add: SD_send_command_fields m4)
  have r8: "fst (SD_send_command SD_SEND_IF_COND 0x1aa ?s4) = 0x05"
    by (rule legacy_reject_card_response [OF m4 l4]) (simp add: sd_defs)
  have r58: "fst (SD_send_command SD_READ_OCR 0 ?s5) = 0x05"
    by (rule legacy_reject_card_response [OF m5 l5]) (simp add: sd_defs)
  show "fst (SDInit legacy_reject_card) = SDCARD_OK"
    by (simp add: SDInit_fst legacy_reject_card_idle)
  show "sdtype (snd (SDInit legacy_reject_card)) = SDTYPE_UNKNOWN"
    by (simp add: SDInit_sdtype legacy_reject_card_idle SDInit_detect_sdtype r8 r58
        SDInit_idle_sdtype)
qed

lemma ones_response:
  assumes "miso s = (\<lambda>n. 0x01)"
  shows "fst (SD_send_command command arg s) = 0x01"
proof (cases "command AND 0x80 = 0")
  case True
  then show ?thesis
    by (simp add: plain_response assms)
next
  case False
  have m55: "miso (snd (SD_send_frame CMD55 0 s)) = miso s"
    using SD_send_frame_same [of s CMD55 0] by (simp add: same_memory_def)
  show ?thesis
    by (simp add: SD_send_command_advanced [OF False] SD_send_frame_fst m55 assms)
qed

lemma ones_poll_loop:
  assumes "miso s = (\<lambda>n. 0x01)"
  shows "fst (SDInit_poll_loop command arg (Suc n) r s) = 0x01"
  using assms
proof (induction n arbitrary: r s)
  case 0
  then show ?case
    by (simp add: case_prod_beta Let_def ones_response)
next
  case (Suc n)
  have "miso (snd (SD_send_command command arg s)) = (\<lambda>n. 0x01)"
    using Suc.prems by (simp add: SD_send_command_fields)
  from Suc.IH [OF this] Suc.prems show ?case
    by (simp add: case_prod_beta Let_def ones_response)
qed

lemma ones_card_idle: "fst (SDInit_idle ones_card) = 0x01"
proof -
  have "miso (SDInit_powerup ones_card) = (\<lambda>n. 0x01)"
    by (simp add: SDInit_powerup_obs ones_card_def)
  then have "go_idle_response 0 (SDInit_powerup ones_card) = 0x01"
    by (simp add: go_idle_response_def ones_response)
  then have "\<exists>j<10. go_idle_response j (SDInit_powerup ones_card) = 0x01"
    by (intro exI [of _ 0]) simp
  then show ?thesis
    by (simp add: SDInit_idle_eq SDInit_idle_loop_found)
qed

subsection \<open>Known CRC bytes\<close>

text \<open>
  The CRC bytes that the SD specification gives for CMD0 with argument 0 and for CMD8
  with argument \<open>0x1aa\<close>, which \<^verbatim>\<open>SD_send_command\<close> sends as constants, are what the table
  yields for the five bytes before them.
\<close>

lemma crc7_table_nth: "i < 256 \<Longrightarrow> crc7_table ! i = crc7_entry i"
  by (simp add: crc7_table_entries)

lemma crc7_bytes_CMD0: "push_bit 1 (crc7_bytes 0 [0x40, 0, 0, 0, 0]) OR 1 = 0x95"
  by (simp add: crc7_table_nth crc7_entry_def funpow7 crc7_step_def Let_def)

lemma crc7_bytes_CMD8: "push_bit 1 (crc7_bytes 0 [0x48, 0, 0, 0x01, 0xaa]) OR 1 = 0x87"
  by (simp add: crc7_table_nth crc7_entry_def funpow7 crc7_step_def Let_def)

lemma not_bit7_less: "\<not> bit (w :: u8) 7 \<Longrightarrow> unat w < 128"
proof -
  assume a: "\<not> bit w 7"
  have "take_bit 7 (unat w) = unat w"
  proof (rule bit_eqI)
    fix n
    show "bit (take_bit 7 (unat w)) n = bit (unat w) n"
      using a by (cases "n = 7") (auto simp add: bit_simps dest: bit_imp_le_length)
  qed
  then have "unat w < 2 ^ 7"
    by (simp only: take_bit_nat_eq_self_iff)
  then show ?thesis
    by simp
qed

lemma crc7_of_byte_less: "i < 256 \<Longrightarrow> crc7_of_byte i < 128"
  using crc7_entry_eq [of i] not_bit7_less [OF crc7_entry_bit7, of i] by simp

subsection \<open>The table entries are remainders\<close>

text \<open>
  What the long division leaves of \<open>v\<close> differs from \<open>v\<close> by a multiple of the generator:
  the quotient collects, step by step, the bits that were cleared.
\<close>

lemma gf2_times_cong:
  "(\<And>j. j < k \<Longrightarrow> bit q j = bit q' j) \<Longrightarrow> gf2_times k q g = gf2_times k q' g"
  by (induction k) simp_all

lemma crc7_reduce_quotient: "\<exists>q. crc7_reduce k v = v XOR gf2_times k q CRC7_POLY"
proof (induction k arbitrary: v)
  case 0
  then show ?case by simp
next
  case (Suc k)
  let ?b = "bit v (k + 7)"
  let ?v' = "if ?b then v XOR push_bit k CRC7_POLY else v"
  from Suc [of ?v'] obtain q' where q': "crc7_reduce k ?v' = ?v' XOR gf2_times k q' CRC7_POLY"
    by blast
  define q where "q = take_bit k q' OR (if ?b then push_bit k 1 else 0)"
  have low: "bit q j = bit q' j" if "j < k" for j
    using that by (auto simp add: q_def bit_simps)
  have top: "bit q k = ?b"
    by (auto simp add: q_def bit_simps)
  have "gf2_times (Suc k) q CRC7_POLY =
      gf2_times k q' CRC7_POLY XOR (if ?b then push_bit k CRC7_POLY else 0)"
    using gf2_times_cong [of k q q' CRC7_POLY] low by (simp only: gf2_times.simps top)
  then have "v XOR gf2_times (Suc k) q CRC7_POLY = ?v' XOR gf2_times k q' CRC7_POLY"
    by (simp add: ac_simps)
  with q' have "crc7_reduce (Suc k) v = v XOR gf2_times (Suc k) q CRC7_POLY"
    by (simp only: crc7_reduce.simps)
  then show ?case ..
qed

lemma crc7_of_byte_remainder:
  "\<exists>q. push_bit 7 i = gf2_times 8 q CRC7_POLY XOR crc7_of_byte i"
proof -
  from crc7_reduce_quotient [of 8 "push_bit 7 i"] obtain q where
    "crc7_of_byte i = push_bit 7 i XOR gf2_times 8 q CRC7_POLY"
    unfolding crc7_of_byte_def by blast
  then have "gf2_times 8 q CRC7_POLY XOR crc7_of_byte i = push_bit 7 i"
    by (simp add: ac_simps flip: xor.assoc)
  then show ?thesis
    by metis
qed

subsection \<open>Variables read before they are set\<close>

text \<open>
  The loops that end with the value of a variable the source does not initialise run at
  least once, so the value they start with is never returned.
\<close>

lemma SD_response_loop_initial:
  "SD_response_loop (Suc n) a s = SD_response_loop (Suc n) b s"
  by simp

lemma SD_wait_loop_initial: "SD_wait_loop (Suc n) a s = SD_wait_loop (Suc n) b s"
  by simp

lemma SDInit_idle_loop_initial: "SDInit_idle_loop (Suc n) a s = SDInit_idle_loop (Suc n) b s"
  by simp

subsection \<open>The result of reading, and the flipped buffer on the wire\<close>

text \<open>
  The result of \<^verbatim>\<open>ReadCSD\<close> is decided by the byte that ends the polling alone.
\<close>

lemma ReadCSD_fst:
  assumes "length (csd s) = 16"
  shows "fst (ReadCSD s) =
     (if miso s (ReadCSD_poll_start s +
           (poll_count (\<lambda>r. r \<noteq> 0xff) (miso s) (ReadCSD_poll_start s) 100 - 1)) = 0xfe
      then SDCARD_OK else SDCARD_RWFAIL)"
proof -
  define s0 where "s0 = s\<lparr>csd := replicate 16 0\<rparr>"
  define s1 where "s1 = snd (SD_send_command SD_SEND_CSD 0 s0)"
  have clear: "fold (\<lambda>i s. s\<lparr>csd := (csd s)[i := 0]\<rparr>) [0..<16] s = s0"
    using ReadCSD_clear [of 16 s] assms by (simp add: s0_def)
  have m1: "miso s1 = miso s"
    by (simp add: s1_def SD_send_command_fields s0_def)
  have r: "fst (SD_wait_for_data s1) =
      miso s (length (wire s1) + (poll_count (\<lambda>r. r \<noteq> 0xff) (miso s) (length (wire s1)) 100 - 1))"
    by (simp add: SD_wait_for_data_def SD_wait_loop_fst m1)
  have "fst (ReadCSD s) = (if fst (SD_wait_for_data s1) \<noteq> 0xfe then SDCARD_RWFAIL else SDCARD_OK)"
    by (simp add: ReadCSD_def clear Let_def case_prod_beta s1_def)
  then show ?thesis
    unfolding r by (simp add: ReadCSD_poll_start_def s1_def s0_def)
qed

lemma late_token_card_start: "ReadCSD_poll_start late_token_card = 9"
proof -
  let ?s = "late_token_card\<lparr>csd := replicate 16 0\<rparr>"
  have "miso ?s (length (wire ?s) + 8) AND 0x80 = 0"
    by (simp add: late_token_card_def no_card_def)
  then have "response_polls ?s = 1"
    by (rule response_polls_first)
  then have "wire (snd (SD_send_command SD_SEND_CSD 0 ?s)) =
      wire ?s @ command_exchange SD_SEND_CSD 0 1"
    using SD_send_command_plain_exchange(1) [of SD_SEND_CSD 0 ?s] by (simp add: sd_defs)
  then show ?thesis
    by (simp add: ReadCSD_poll_start_def length_command_exchange keeps_selected_def
        late_token_card_def no_card_def)
qed


section \<open>The claims\<close>

text \<open>
  C5. Every command that \<^verbatim>\<open>SD_send_command\<close> puts on the wire is six bytes: the opcode
  with bit 6 set, the four bytes of the argument with the most significant first, and a
  CRC byte that is \<open>0x95\<close> for the go-idle command, \<open>0x87\<close> for the
  send-interface-condition command and \<open>0x01\<close> for every other command
  (\<open>frame_bytes\<close>, inside \<open>command_exchange\<close>). A command without the high bit is sent
  as one such exchange. A command with the high bit is sent as the exchange of CMD55
  with argument 0, followed by the exchange of the command with the high bit stripped,
  unless the response to CMD55 is greater than 1.
\<close>

theorem SD_send_command_frame:
  "(command AND 0x80 = 0 \<longrightarrow>
      (\<exists>k. 1 \<le> k \<and> k \<le> 10 \<and>
         wire (snd (SD_send_command command arg s)) = wire s @ command_exchange command arg k)) \<and>
   (command AND 0x80 \<noteq> 0 \<longrightarrow>
      (\<exists>k55 k. 1 \<le> k55 \<and> k55 \<le> 10 \<and> 1 \<le> k \<and> k \<le> 10 \<and>
         wire (snd (SD_send_command command arg s)) =
           wire s @ command_exchange CMD55 0 k55 @
           (if 1 < fst (SD_send_command CMD55 0 s) then []
            else command_exchange (command AND 0x7f) arg k)))"
proof (intro conjI impI)
  assume "command AND 0x80 = 0"
  then show "\<exists>k. 1 \<le> k \<and> k \<le> 10 \<and>
         wire (snd (SD_send_command command arg s)) = wire s @ command_exchange command arg k"
    using SD_send_command_plain_exchange(1) response_polls_bounds by blast
next
  assume adv: "command AND 0x80 \<noteq> 0"
  let ?s55 = "snd (SD_send_command CMD55 0 s)"
  have eq: "SD_send_command CMD55 0 s = SD_send_frame CMD55 0 s"
    by (rule SD_send_command_CMD55)
  have "wire (snd (SD_send_command command arg s)) =
           wire s @ command_exchange CMD55 0 (response_polls s) @
           (if 1 < fst (SD_send_command CMD55 0 s) then []
            else command_exchange (command AND 0x7f) arg (response_polls ?s55))"
    using CMD55_exchange(1) [of s]
    by (simp add: SD_send_command_advanced [OF adv] eq SD_send_frame_wire)
  then show "\<exists>k55 k. 1 \<le> k55 \<and> k55 \<le> 10 \<and> 1 \<le> k \<and> k \<le> 10 \<and>
         wire (snd (SD_send_command command arg s)) =
           wire s @ command_exchange CMD55 0 k55 @
           (if 1 < fst (SD_send_command CMD55 0 s) then []
            else command_exchange (command AND 0x7f) arg k)"
    using response_polls_bounds by blast
qed

theorem SD_send_command_frame_witness:
  "(SD_GO_IDLE AND 0x80 = 0 \<and>
      (\<exists>k. 1 \<le> k \<and> k \<le> 10 \<and>
         wire (snd (SD_send_command SD_GO_IDLE 0 no_card)) =
           wire no_card @ command_exchange SD_GO_IDLE 0 k)) \<and>
   (SD_ADV_INIT AND 0x80 \<noteq> 0 \<and>
      (\<exists>k55 k. 1 \<le> k55 \<and> k55 \<le> 10 \<and> 1 \<le> k \<and> k \<le> 10 \<and>
         wire (snd (SD_send_command SD_ADV_INIT (push_bit 30 1) no_card)) =
           wire no_card @ command_exchange CMD55 0 k55 @
           (if 1 < fst (SD_send_command CMD55 0 no_card) then []
            else command_exchange (SD_ADV_INIT AND 0x7f) (push_bit 30 1) k)))"
proof -
  have plain: "SD_GO_IDLE AND 0x80 = 0" and adv: "SD_ADV_INIT AND 0x80 \<noteq> 0"
    by (simp_all add: sd_defs)
  show ?thesis
    using plain adv SD_send_command_frame [of SD_GO_IDLE 0 no_card]
      SD_send_command_frame [of SD_ADV_INIT "push_bit 30 1" no_card]
    by simp
qed

text \<open>
  C4. For every command with the high bit set, \<^verbatim>\<open>SD_send_command\<close> first puts the
  exchange of CMD55 with argument 0 on the wire. If the response to CMD55 (the last byte
  polled) is greater than 1, the call returns just what the CMD55 call returns: that
  response, and a wire that ends with the CMD55 exchange, so the target command is not
  sent. Otherwise the exchange of the target command, with the high bit stripped, follows
  the CMD55 exchange immediately, and its response is returned.
\<close>

theorem SD_send_command_advanced_prefix:
  assumes "command AND 0x80 \<noteq> 0"
  shows "\<exists>k55. 1 \<le> k55 \<and> k55 \<le> 10 \<and>
     wire (snd (SD_send_command CMD55 0 s)) = wire s @ command_exchange CMD55 0 k55 \<and>
     fst (SD_send_command CMD55 0 s) = miso s (length (wire s) + 7 + k55) \<and>
     (if 1 < fst (SD_send_command CMD55 0 s)
      then SD_send_command command arg s = SD_send_command CMD55 0 s
      else \<exists>k. 1 \<le> k \<and> k \<le> 10 \<and>
             wire (snd (SD_send_command command arg s)) =
               wire (snd (SD_send_command CMD55 0 s)) @ command_exchange (command AND 0x7f) arg k \<and>
             fst (SD_send_command command arg s) =
               miso s (length (wire (snd (SD_send_command CMD55 0 s))) + 7 + k))"
proof -
  let ?s55 = "snd (SD_send_command CMD55 0 s)"
  have eq: "SD_send_command CMD55 0 s = SD_send_frame CMD55 0 s"
    by (rule SD_send_command_CMD55)
  have m: "miso ?s55 = miso s"
    using SD_send_command_same [of s CMD55 0] by (simp add: same_memory_def)
  have tail: "\<exists>k. 1 \<le> k \<and> k \<le> 10 \<and>
             wire (snd (SD_send_command command arg s)) =
               wire ?s55 @ command_exchange (command AND 0x7f) arg k \<and>
             fst (SD_send_command command arg s) = miso s (length (wire ?s55) + 7 + k)"
    if "\<not> 1 < fst (SD_send_command CMD55 0 s)"
  proof -
    from that have "SD_send_command command arg s = SD_send_frame (command AND 0x7f) arg ?s55"
      by (simp add: SD_send_command_advanced [OF assms] eq)
    then have "wire (snd (SD_send_command command arg s)) =
               wire ?s55 @ command_exchange (command AND 0x7f) arg (response_polls ?s55)"
      and "fst (SD_send_command command arg s) = miso s (length (wire ?s55) + 7 + response_polls ?s55)"
      by (simp_all add: SD_send_frame_wire SD_send_frame_fst m)
    then show ?thesis
      using response_polls_bounds by blast
  qed
  have "SD_send_command command arg s = SD_send_command CMD55 0 s"
    if "1 < fst (SD_send_command CMD55 0 s)"
    using that by (simp add: SD_send_command_advanced [OF assms] eq)
  with tail CMD55_exchange(1,2) [of s] response_polls_bounds [of s] show ?thesis
    by (cases "1 < fst (SD_send_command CMD55 0 s)") (simp_all, blast+)
qed

theorem SD_send_command_advanced_prefix_witness:
  "SD_ADV_INIT AND 0x80 \<noteq> 0 \<and>
   fst (SD_send_command CMD55 0 no_card) = 0xff \<and>
   SD_send_command SD_ADV_INIT (push_bit 30 1) no_card = SD_send_command CMD55 0 no_card"
proof -
  have adv: "SD_ADV_INIT AND 0x80 \<noteq> 0"
    by (simp add: sd_defs)
  from SD_send_command_advanced_prefix [OF adv, of no_card "push_bit 30 1"]
  obtain k55 where r: "fst (SD_send_command CMD55 0 no_card) = miso no_card (length (wire no_card) + 7 + k55)"
    and c: "if 1 < fst (SD_send_command CMD55 0 no_card)
      then SD_send_command SD_ADV_INIT (push_bit 30 1) no_card = SD_send_command CMD55 0 no_card
      else \<exists>k. 1 \<le> k \<and> k \<le> 10 \<and>
             wire (snd (SD_send_command SD_ADV_INIT (push_bit 30 1) no_card)) =
               wire (snd (SD_send_command CMD55 0 no_card)) @
               command_exchange (SD_ADV_INIT AND 0x7f) (push_bit 30 1) k \<and>
             fst (SD_send_command SD_ADV_INIT (push_bit 30 1) no_card) =
               miso no_card (length (wire (snd (SD_send_command CMD55 0 no_card))) + 7 + k)"
    by blast
  from r have ff: "fst (SD_send_command CMD55 0 no_card) = 0xff"
    by (simp add: no_card_def)
  with c adv show ?thesis
    by simp
qed

text \<open>
  C7. When \<^verbatim>\<open>SD_send_command\<close> returns, the card is still selected if and only if the
  command sent last is one of read-block, read-OCR, send-CSD, send-status, send-CID,
  send-interface-condition, lock-unlock and program-CSD; the wire then ends with the
  last response poll. For every other command the card is deselected and the wire ends
  with one idle byte \<open>0xff\<close> exchanged after the release. The command sent last is the
  command itself when its high bit is clear, CMD55 when the high bit is set and the
  response to CMD55 is greater than 1, and the command without its high bit otherwise.
\<close>

theorem SD_send_command_release:
  "(let sent = (if command AND 0x80 = 0 then command
                else if 1 < fst (SD_send_command CMD55 0 s) then CMD55
                else command AND 0x7f);
        s' = snd (SD_send_command command arg s)
    in (selected s' \<longleftrightarrow>
          sent \<in> {SD_READ_BLK, SD_READ_OCR, SD_SEND_CSD, SD_SEND_STATUS, SD_SEND_CID,
                   SD_SEND_IF_COND, SD_LOCK_UNLOCK, SD_PROGRAM_CSD}) \<and>
       (\<exists>pre. wire s' = wire s @ pre @
                 (if selected s' then [(True, 0xff)] else [(True, 0xff), (False, 0xff)])))"
proof -
  have plain: "selected (snd (SD_send_frame c a t)) = keeps_selected c \<and>
      (\<exists>pre. wire (snd (SD_send_frame c a t)) = wire t @ pre @
                 (if keeps_selected c then [(True, 0xff)] else [(True, 0xff), (False, 0xff)]))"
    for c a t
    using command_exchange_end [OF response_polls_bounds(1), of c a t]
    by (auto simp add: SD_send_frame_wire SD_send_frame_selected)
  show ?thesis
  proof (cases "command AND 0x80 = 0")
    case True
    with plain [of command arg s] show ?thesis
      by (simp add: SD_send_command_plain keeps_selected_def)
  next
    case adv: False
    have eq: "SD_send_command CMD55 0 s = SD_send_frame CMD55 0 s"
      by (rule SD_send_command_CMD55)
    show ?thesis
    proof (cases "1 < fst (SD_send_frame CMD55 0 s)")
      case True
      with adv plain [of CMD55 0 s] show ?thesis
        by (simp add: SD_send_command_advanced eq keeps_selected_def)
    next
      case False
      let ?s55 = "snd (SD_send_frame CMD55 0 s)"
      from plain [of CMD55 0 s] obtain pre55 where
        w55: "wire ?s55 = wire s @ pre55 @ (if keeps_selected CMD55 then [(True, 0xff)] else [(True, 0xff), (False, 0xff)])"
        by blast
      from plain [of "command AND 0x7f" arg ?s55] obtain pre where
        w: "wire (snd (SD_send_frame (command AND 0x7f) arg ?s55)) = wire ?s55 @ pre @
            (if keeps_selected (command AND 0x7f) then [(True, 0xff)] else [(True, 0xff), (False, 0xff)])"
        and sel: "selected (snd (SD_send_frame (command AND 0x7f) arg ?s55)) = keeps_selected (command AND 0x7f)"
        by blast
      from w w55 have "wire (snd (SD_send_frame (command AND 0x7f) arg ?s55)) = wire s @
           (pre55 @ (if keeps_selected CMD55 then [(True, 0xff)] else [(True, 0xff), (False, 0xff)]) @ pre) @
            (if keeps_selected (command AND 0x7f) then [(True, 0xff)] else [(True, 0xff), (False, 0xff)])"
        by simp
      then have "\<exists>pre. wire (snd (SD_send_frame (command AND 0x7f) arg ?s55)) = wire s @ pre @
            (if keeps_selected (command AND 0x7f) then [(True, 0xff)] else [(True, 0xff), (False, 0xff)])"
        by blast
      with adv False sel show ?thesis
        by (simp add: SD_send_command_advanced eq keeps_selected_def)
    qed
  qed
qed

theorem SD_send_command_release_witness:
  "selected (snd (SD_send_command SD_SEND_CSD 0 no_card)) \<and>
   \<not> selected (snd (SD_send_command SD_GO_IDLE 0 no_card)) \<and>
   (\<exists>pre. wire (snd (SD_send_command SD_GO_IDLE 0 no_card)) =
            wire no_card @ pre @ [(True, 0xff), (False, 0xff)])"
  using SD_send_command_release [of SD_SEND_CSD no_card 0]
    SD_send_command_release [of SD_GO_IDLE no_card 0]
  by (auto simp add: Let_def sd_defs)

text \<open>
  C1. \<^verbatim>\<open>GenerateCRCTable\<close> fills the table, whatever it held before, with the CRC7
  remainders under the polynomial \<open>0x89\<close>: for every \<open>i\<close> from 0 to 255 the entry \<open>i\<close> is
  the value that the eight steps of the long division leave of \<open>i \<cdot> x\<^sup>7\<close>. That value
  has seven bits and differs from \<open>i \<cdot> x\<^sup>7\<close> by a multiple of the polynomial, so it is the
  remainder. The table is the constant \<open>crc7_table\<close>, which depends on the polynomial
  only.
\<close>

theorem GenerateCRCTable_crc7:
  assumes "length (crctable s) = 256"
  shows "crctable (GenerateCRCTable s) = crc7_table \<and>
         (\<forall>i<256. unat (crctable (GenerateCRCTable s) ! i) = crc7_of_byte i \<and>
                  crc7_of_byte i < 128 \<and>
                  (\<exists>q. push_bit 7 i = gf2_times 8 q CRC7_POLY XOR crc7_of_byte i))"
proof -
  have t: "crctable (GenerateCRCTable s) = map crc7_entry [0..<256]"
    using GenerateCRCTable_i_map [OF assms, of 0] by (simp add: GenerateCRCTable_def)
  then show ?thesis
    using crc7_of_byte_remainder
    by (simp add: crc7_table_entries crc7_entry_eq crc7_of_byte_less)
qed

theorem GenerateCRCTable_crc7_witness:
  "length (crctable no_card) = 256 \<and>
   crctable (GenerateCRCTable no_card) = crc7_table \<and>
   crc7_of_byte 1 = unat (crctable (GenerateCRCTable no_card) ! 1) \<and>
   crctable (GenerateCRCTable no_card) ! 1 = 0x09 \<and>
   crc7_of_byte 0x40 = unat (crctable (GenerateCRCTable no_card) ! 0x40) \<and>
   crctable (GenerateCRCTable no_card) ! 0x40 = 0x64"
proof -
  have l: "length (crctable no_card) = 256"
    by (simp add: no_card_def)
  from GenerateCRCTable_crc7 [OF l]
  have t: "crctable (GenerateCRCTable no_card) = crc7_table"
    and a: "\<forall>i<256. unat (crctable (GenerateCRCTable no_card) ! i) = crc7_of_byte i"
    by blast+
  from a have "unat (crctable (GenerateCRCTable no_card) ! 1) = crc7_of_byte 1"
    by (rule allE [of _ 1]) simp
  moreover from a have "unat (crctable (GenerateCRCTable no_card) ! 0x40) = crc7_of_byte 0x40"
    by (rule allE [of _ "0x40"]) simp
  moreover note t
  moreover have "crc7_table ! 1 = 0x09" "crc7_table ! 0x40 = 0x64"
    using crc7_entry_0x01 crc7_entry_0x40 by (simp_all add: crc7_table_entries)
  ultimately show ?thesis
    using l by simp
qed

text \<open>
  C3. \<^verbatim>\<open>ReadCSD\<close> first zeroes the 16 bytes of \<open>csd\<close> and sends the send-CSD command,
  which leaves the card selected. It then polls by exchanging \<open>0xff\<close>: \<open>k\<close> polls, at
  least one and at most 100, every poll but the last returning \<open>0xff\<close>, and fewer than
  100 only when the last returned another byte. The polling ends at the first byte other
  than \<open>0xff\<close>, so the token \<open>0xfe\<close> is among the bytes polled exactly when it is the byte
  that ended the polling. If it is not, \<^verbatim>\<open>ReadCSD\<close> returns the read/write failure with
  the buffer still zero and nothing more exchanged. Otherwise it stores the next 16 bytes
  of the card in \<open>csd\<close>, exchanges one more byte, and returns success: \<open>k + 16 + 1\<close>
  exchanges after the command.

  This is less than "failure only if the token never appears within 100 polls": a token
  that the card sends after another byte than \<open>0xff\<close> is never polled, and the result is
  the failure, as the card \<open>late_token_card\<close> shows below.
\<close>


theorem ReadCSD_behaviour:
  assumes "length (csd s) = 16"
  shows "\<exists>k s1 s'.
    s1 = snd (SD_send_command SD_SEND_CSD 0 (s\<lparr>csd := replicate 16 0\<rparr>)) \<and>
    1 \<le> k \<and> k \<le> 100 \<and>
    (\<forall>j. j + 1 < k \<longrightarrow> miso s (length (wire s1) + j) = 0xff) \<and>
    (k < 100 \<longrightarrow> miso s (length (wire s1) + (k - 1)) \<noteq> 0xff) \<and>
    ((\<exists>j<k. miso s (length (wire s1) + j) = 0xfe) \<longleftrightarrow>
       miso s (length (wire s1) + (k - 1)) = 0xfe) \<and>
    (if \<exists>j<k. miso s (length (wire s1) + j) = 0xfe
     then ReadCSD s = (SDCARD_OK, s') \<and>
          csd s' = map (\<lambda>i. miso s (length (wire s1) + k + i)) [0..<16] \<and>
          wire s' = wire s1 @ replicate (k + 16 + 1) (True, 0xff)
     else ReadCSD s = (SDCARD_RWFAIL, s') \<and>
          csd s' = replicate 16 0 \<and>
          wire s' = wire s1 @ replicate k (True, 0xff))"
proof -
  define s0 where "s0 = s\<lparr>csd := replicate 16 0\<rparr>"
  define s1 where "s1 = snd (SD_send_command SD_SEND_CSD 0 s0)"
  define p where "p = length (wire s1)"
  define k where "k = poll_count (\<lambda>r. r \<noteq> 0xff) (miso s) p 100"
  define s3 where "s3 = snd (SD_wait_for_data s1)"
  define r where "r = fst (SD_wait_for_data s1)"
  define s4 where "s4 = fold (\<lambda>i s. let (b, s') = Xchg 0xff s
                                      in s'\<lparr>csd := (csd s')[i := b]\<rparr>) [0..<16] s3"
  define s5 where "s5 = snd (Xchg 0xff s4)"
  have clear: "fold (\<lambda>i s. s\<lparr>csd := (csd s)[i := 0]\<rparr>) [0..<16] s = s0"
    using ReadCSD_clear [of 16 s] assms by (simp add: s0_def)
  have m1: "miso s1 = miso s" and c1: "csd s1 = replicate 16 0"
    by (simp_all add: s1_def SD_send_command_fields s0_def)
  have sel1: "selected s1"
    by (simp add: s1_def SD_send_command_plain SD_send_frame_selected keeps_selected_def sd_defs)
  have k: "1 \<le> k" "k \<le> 100"
    using poll_count_pos [of 100 "\<lambda>r. r \<noteq> 0xff" "miso s" p]
      poll_count_le [of "\<lambda>r. r \<noteq> 0xff" "miso s" p 100]
    by (simp_all add: k_def)
  have before: "miso s (p + j) = 0xff" if "j + 1 < k" for j
    using poll_count_before [of j "\<lambda>r. r \<noteq> 0xff" "miso s" p 100] that by (simp add: k_def)
  have last: "miso s (p + (k - 1)) \<noteq> 0xff" if "k < 100"
    using poll_count_last [of "\<lambda>r. r \<noteq> 0xff" "miso s" p 100] that by (simp add: k_def)
  have w3: "wire s3 = wire s1 @ replicate k (True, 0xff)"
    and c3: "csd s3 = replicate 16 0" and m3: "miso s3 = miso s" and sel3: "selected s3"
    using sel1
    by (simp_all add: s3_def SD_wait_for_data_def SD_wait_loop_wire SD_wait_loop_fields
        m1 c1 k_def p_def)
  have r: "r = miso s (p + (k - 1))"
    by (simp add: r_def SD_wait_for_data_def SD_wait_loop_fst m1 k_def p_def)
  have token: "(\<exists>j<k. miso s (p + j) = 0xfe) \<longleftrightarrow> r = 0xfe"
  proof
    assume "\<exists>j<k. miso s (p + j) = 0xfe"
    then obtain j where j: "j < k" "miso s (p + j) = 0xfe"
      by blast
    have "\<not> j + 1 < k"
      using before [of j] j by auto
    with j have "j = k - 1"
      by simp
    with j r show "r = 0xfe"
      by simp
  next
    assume "r = 0xfe"
    with r k show "\<exists>j<k. miso s (p + j) = 0xfe"
      by (intro exI [of _ "k - 1"]) simp
  qed
  have l3: "length (wire s3) = p + k"
    by (simp add: w3 p_def)
  from ReadCSD_read [of 16 s3]
  have w4: "wire s4 = wire s3 @ replicate 16 (True, 0xff)"
    and c4: "csd s4 = map (\<lambda>i. miso s (p + k + i)) [0..<16]"
    and sel4: "selected s4"
    using sel3 by (simp_all add: s4_def Let_def c3 m3 l3)
  have rep: "replicate (k + 16 + 1) (True, 0xff :: u8) =
      replicate k (True, 0xff) @ replicate 16 (True, 0xff) @ [(True, 0xff)]"
    unfolding replicate_add by simp
  have "wire s5 = wire s4 @ [(True, 0xff)]"
    using sel4 by (simp add: s5_def)
  then have w5: "wire s5 = wire s1 @ replicate (k + 16 + 1) (True, 0xff)"
    by (simp only: w4 w3 rep append_assoc)
  have c5: "csd s5 = map (\<lambda>i. miso s (p + k + i)) [0..<16]"
    by (simp add: s5_def c4)
  have run: "ReadCSD s = (if r \<noteq> 0xfe then (SDCARD_RWFAIL, s3) else (SDCARD_OK, s5))"
    by (simp add: ReadCSD_def clear Let_def case_prod_beta s1_def s3_def r_def s4_def s5_def)
  show ?thesis
  proof (cases "r = 0xfe")
    case True
    with run token w5 c5 k before last r show ?thesis
      unfolding s1_def [symmetric] s0_def [symmetric] p_def [symmetric]
      by (intro exI [of _ k] exI [of _ s1] exI [of _ s5]) (simp add: s1_def s0_def p_def)
  next
    case False
    with run token w3 c3 k before last r show ?thesis
      by (intro exI [of _ k] exI [of _ s1] exI [of _ s3]) (simp add: s1_def s0_def p_def)
  qed
qed

theorem ReadCSD_behaviour_witness:
  "length (csd no_card) = 16 \<and>
   fst (ReadCSD no_card) = SDCARD_RWFAIL \<and> csd (snd (ReadCSD no_card)) = replicate 16 0 \<and>
   length (csd token_card) = 16 \<and>
   fst (ReadCSD token_card) = SDCARD_OK \<and> csd (snd (ReadCSD token_card)) = replicate 16 0xfe"
proof -
  have l: "length (csd no_card) = 16" "length (csd token_card) = 16"
    by (simp_all add: no_card_def token_card_def)
  have m: "miso no_card = (\<lambda>n. 0xff)" "miso token_card = (\<lambda>n. 0xfe)"
    by (simp_all add: no_card_def token_card_def)
  from ReadCSD_behaviour [OF l(1)] have
    "fst (ReadCSD no_card) = SDCARD_RWFAIL \<and> csd (snd (ReadCSD no_card)) = replicate 16 0"
    by (auto simp add: m)
  moreover have ex: "(\<exists>j::nat. j < k) \<longleftrightarrow> 0 < k" for k
    by auto
  from ReadCSD_behaviour [OF l(2)] have
    "fst (ReadCSD token_card) = SDCARD_OK \<and> csd (snd (ReadCSD token_card)) = replicate 16 0xfe"
    by (auto simp add: m ex map_replicate_const)
  ultimately show ?thesis
    using l by simp
qed

text \<open>
  The card \<open>late_token_card\<close> sends \<open>0x05\<close> at the first poll and the token at the second:
  the token appears within the 100 polls that the property allows, and \<^verbatim>\<open>ReadCSD\<close> returns
  the failure after one poll. So "failure exactly when the token does not appear within 100
  polls" does not hold of every card.
\<close>

theorem ReadCSD_behaviour_counterexample:
  "length (csd late_token_card) = 16 \<and>
   miso late_token_card (ReadCSD_poll_start late_token_card) = 0x05 \<and>
   miso late_token_card (ReadCSD_poll_start late_token_card + 1) = 0xfe \<and>
   token_within 100 late_token_card \<and>
   fst (ReadCSD late_token_card) = SDCARD_RWFAIL \<and>
   \<not> (\<forall>s. length (csd s) = 16 \<longrightarrow>
          (fst (ReadCSD s) = SDCARD_RWFAIL \<longleftrightarrow> \<not> token_within 100 s))"
proof -
  have l: "length (csd late_token_card) = 16"
    by (simp add: late_token_card_def no_card_def)
  have m: "miso late_token_card 9 = 0x05" "miso late_token_card 10 = 0xfe"
    by (simp_all add: late_token_card_def)
  have "poll_count (\<lambda>r. r \<noteq> 0xff) (miso late_token_card) 9 100 = Suc 0"
    by (rule poll_count_first) (simp_all add: m)
  then have f: "fst (ReadCSD late_token_card) = SDCARD_RWFAIL"
    using ReadCSD_fst [OF l] by (simp add: late_token_card_start m sd_defs)
  have "1 \<in> set [0..<100::nat]"
    by simp
  then have t: "token_within 100 late_token_card"
    unfolding token_within_def list_ex_iff late_token_card_start
    by (rule bexI [rotated]) (simp add: m)
  from l f t have "\<not> (\<forall>s. length (csd s) = 16 \<longrightarrow>
          (fst (ReadCSD s) = SDCARD_RWFAIL \<longleftrightarrow> \<not> token_within 100 s))"
    by blast
  with l f t m show ?thesis
    by (simp add: late_token_card_start)
qed

text \<open>
  C2. Let \<open>response\<close> and \<open>s1\<close> be what the program-CSD command returns and the state it
  leaves, with the card selected. If the response is not zero, \<^verbatim>\<open>WriteCSD\<close> returns the
  read/write failure in the state \<open>s1\<close> itself: nothing is exchanged after the command.
  Otherwise \<^verbatim>\<open>WriteCSD\<close> sends, with the card selected, the token \<open>0xfe\<close>, the first 15
  bytes of \<open>csd\<close>, the CRC7 folded over these 15 bytes as the byte \<open>(crc << 1) | 1\<close>, and
  two bytes \<open>0xff\<close>; then \<open>k\<close> busy-wait exchanges of \<open>0xff\<close> follow, at least one and at
  most 65535, every one but the last reading zero. It returns success when the last one
  reads a nonzero byte, and the timeout when it reads zero, and then \<open>k\<close> is 65535. The
  buffer \<open>csd\<close> is not changed. The hypotheses are that \<open>csd\<close> has its 16 bytes and that the
  CRC table has been generated.
\<close>

theorem WriteCSD_behaviour:
  assumes "length (csd s) = 16" and "crctable s = crc7_table"
  shows "\<exists>response s1 k s'.
     SD_send_command SD_PROGRAM_CSD 0 s = (response, s1) \<and>
     (if response \<noteq> 0 then WriteCSD s = Some (SDCARD_RWFAIL, s1)
      else 1 \<le> k \<and> k \<le> 65535 \<and>
           (\<forall>j. j + 1 < k \<longrightarrow> miso s (length (wire s1) + 19 + j) = 0) \<and>
           wire s' = wire s1 @
             map (Pair True) ([0xfe] @ take 15 (csd s) @
               [push_bit 1 (crc7_bytes 0 (take 15 (csd s))) OR 1, 0xff, 0xff]) @
             replicate k (True, 0xff) \<and>
           csd s' = csd s \<and>
           (if miso s (length (wire s1) + 19 + (k - 1)) \<noteq> 0
            then WriteCSD s = Some (SDCARD_OK, s')
            else k = 65535 \<and> WriteCSD s = Some (SDCARD_TIMEOUT, s')))"
proof (cases "fst (SD_send_command SD_PROGRAM_CSD 0 s) = 0")
  case False
  from WriteCSD_rejected [OF False] False show ?thesis
    by (intro exI [of _ "fst (SD_send_command SD_PROGRAM_CSD 0 s)"]
        exI [of _ "snd (SD_send_command SD_PROGRAM_CSD 0 s)"]) simp
next
  case True
  define s1 where "s1 = snd (SD_send_command SD_PROGRAM_CSD 0 s)"
  define p where "p = length (wire s1) + 19"
  define k where "k = poll_count (\<lambda>r. r \<noteq> 0) (miso s) p 65535"
  from WriteCSD_accepted [OF assms True] obtain s' where
    run: "WriteCSD s = Some (if miso s (p + (k - 1)) \<noteq> 0 then SDCARD_OK else SDCARD_TIMEOUT, s')"
    and w: "wire s' = wire s1 @
            map (Pair True) ([0xfe] @ take 15 (csd s) @
              [push_bit 1 (crc7_bytes 0 (take 15 (csd s))) OR 1, 0xff, 0xff]) @
            replicate k (True, 0xff)"
    and mem: "same_memory s s'"
    unfolding s1_def [symmetric] p_def [symmetric] k_def [symmetric] by blast
  have k: "1 \<le> k" "k \<le> 65535"
    using poll_count_pos [of 65535 "\<lambda>r. r \<noteq> 0" "miso s" p]
      poll_count_le [of "\<lambda>r. r \<noteq> 0" "miso s" p 65535]
    by (simp_all add: k_def)
  have before: "miso s (p + j) = 0" if "j + 1 < k" for j
    using poll_count_before [of j "\<lambda>r. r \<noteq> 0" "miso s" p 65535] that by (simp add: k_def)
  have last: "k = 65535" if "miso s (p + (k - 1)) = 0"
  proof (rule ccontr)
    assume "k \<noteq> 65535"
    with k(2) have "k < 65535"
      by simp
    then have "miso s (p + (k - 1)) \<noteq> 0"
      using poll_count_last [of "\<lambda>r. r \<noteq> 0" "miso s" p 65535] by (simp add: k_def)
    with that show False
      by simp
  qed
  have c: "csd s' = csd s"
    using mem by (simp add: same_memory_def)
  have "SD_send_command SD_PROGRAM_CSD 0 s = (0, s1)"
    using True by (simp add: s1_def prod_eq_iff)
  with run w c k before last show ?thesis
    by (intro exI [of _ 0] exI [of _ s1] exI [of _ k] exI [of _ s']) (simp add: p_def del: push_bit_of_1)
qed

theorem WriteCSD_behaviour_witness:
  "(length (csd mute_card) = 16 \<and> crctable mute_card = crc7_table \<and>
      (\<exists>s'. WriteCSD mute_card = Some (SDCARD_RWFAIL, s'))) \<and>
   (length (csd busy_card) = 16 \<and> crctable busy_card = crc7_table \<and>
      (\<exists>s'. WriteCSD busy_card = Some (SDCARD_TIMEOUT, s'))) \<and>
   (length (csd prompt_card) = 16 \<and> crctable prompt_card = crc7_table \<and>
      (\<exists>s'. WriteCSD prompt_card = Some (SDCARD_OK, s')))"
proof -
  have l: "length (csd mute_card) = 16" "length (csd busy_card) = 16"
    "length (csd prompt_card) = 16"
    and t: "crctable mute_card = crc7_table" "crctable busy_card = crc7_table"
    "crctable prompt_card = crc7_table"
    by (simp_all add: mute_card_def busy_card_def prompt_card_def no_card_def)
  have r1: "fst (SD_send_command SD_PROGRAM_CSD 0 mute_card) = 0xff"
    by (simp add: PROGRAM_CSD_response) (simp add: mute_card_def no_card_def)
  have r2: "fst (SD_send_command SD_PROGRAM_CSD 0 busy_card) = 0"
    by (simp add: PROGRAM_CSD_response) (simp add: busy_card_def no_card_def)
  have r3: "fst (SD_send_command SD_PROGRAM_CSD 0 prompt_card) = 0"
    by (simp add: PROGRAM_CSD_response response_polls_prompt_card)
      (simp add: prompt_card_def no_card_def)
  have m2: "miso busy_card = (\<lambda>n. 0)"
    and m3: "miso prompt_card = (\<lambda>n. if n = 8 then 0 else 0xff)"
    by (simp_all add: busy_card_def prompt_card_def)
  from WriteCSD_behaviour [OF l(1) t(1)] r1
  have "\<exists>s'. WriteCSD mute_card = Some (SDCARD_RWFAIL, s')"
    by auto
  moreover from WriteCSD_behaviour [OF l(2) t(2)] r2
  have "\<exists>s'. WriteCSD busy_card = Some (SDCARD_TIMEOUT, s')"
    by (auto simp add: m2)
  moreover from WriteCSD_behaviour [OF l(3) t(3)] r3
  have "\<exists>s'. WriteCSD prompt_card = Some (SDCARD_OK, s')"
    by (auto simp add: m3)
  ultimately show ?thesis
    using l t by simp
qed

text \<open>
  C8. Whatever the 16 bytes of \<open>csd\<close> hold, two calls of \<^verbatim>\<open>ToggleState\<close> in succession
  bring byte 14 back to its value: the first call changes it by the lock bit, the second
  changes it back, and the whole buffer is as before. Both calls return, given that the
  CRC table has been generated.
\<close>

theorem ToggleState_twice:
  assumes "length (csd s) = 16" and "crctable s = crc7_table"
  shows "\<exists>s1 s2. ToggleState s = Some s1 \<and> ToggleState s1 = Some s2 \<and>
           csd s1 ! 14 = csd s ! 14 XOR LOCK_BIT_MASK \<and>
           csd s2 ! 14 = csd s ! 14 \<and> csd s2 = csd s"
proof -
  from ToggleState_run [OF assms] obtain s1 where
    t1: "ToggleState s = Some s1"
    and c1: "csd s1 = (csd s)[14 := csd s ! 14 XOR LOCK_BIT_MASK]"
    and tab1: "crctable s1 = crc7_table"
    by blast
  have len1: "length (csd s1) = 16"
    using assms(1) by (simp add: c1)
  from ToggleState_run [OF len1 tab1] obtain s2 where
    t2: "ToggleState s1 = Some s2"
    and c2: "csd s2 = (csd s1)[14 := csd s1 ! 14 XOR LOCK_BIT_MASK]"
    by blast
  have n1: "csd s1 ! 14 = csd s ! 14 XOR LOCK_BIT_MASK"
    using assms(1) by (simp add: c1)
  have "csd s2 = (csd s)[14 := csd s ! 14]"
    using assms(1) by (simp add: c2 c1 xor.assoc)
  then have "csd s2 = csd s"
    by simp
  with t1 t2 n1 show ?thesis
    by simp
qed

theorem ToggleState_twice_witness:
  "length (csd mute_card) = 16 \<and> crctable mute_card = crc7_table \<and>
   csd mute_card ! 14 = 0 \<and>
   (\<exists>s1 s2. ToggleState mute_card = Some s1 \<and> ToggleState s1 = Some s2 \<and>
            csd s1 ! 14 = 0x10 \<and> csd s2 ! 14 = 0)"
proof -
  have l: "length (csd mute_card) = 16" and t: "crctable mute_card = crc7_table"
    and z: "csd mute_card ! 14 = 0"
    by (simp_all add: mute_card_def no_card_def)
  from ToggleState_twice [OF l t] l t z show ?thesis
    by auto
qed





text \<open>
  C6. \<^verbatim>\<open>SDInit\<close> returns the not-detected code if and only if none of the go-idle
  commands, up to ten of them sent one after the other, is answered \<open>0x01\<close>. In every
  other case it returns success, whatever the detection branches do; and there is a card
  for which it returns success with the card type still unknown.
\<close>

theorem SDInit_result:
  "(fst (SDInit s) = SDCARD_NOT_DETECTED \<longleftrightarrow>
      (\<forall>j<10. go_idle_response j (SDInit_powerup s) \<noteq> 0x01)) \<and>
   (fst (SDInit s) \<noteq> SDCARD_NOT_DETECTED \<longrightarrow> fst (SDInit s) = SDCARD_OK) \<and>
   (\<exists>c. fst (SDInit c) = SDCARD_OK \<and> sdtype (snd (SDInit c)) = SDTYPE_UNKNOWN)"
proof (intro conjI)
  show "fst (SDInit s) = SDCARD_NOT_DETECTED \<longleftrightarrow>
      (\<forall>j<10. go_idle_response j (SDInit_powerup s) \<noteq> 0x01)"
    by (auto simp add: SDInit_fst SDInit_idle_eq SDInit_idle_loop_found sd_defs)
  show "fst (SDInit s) \<noteq> SDCARD_NOT_DETECTED \<longrightarrow> fst (SDInit s) = SDCARD_OK"
    by (simp add: SDInit_fst)
  show "\<exists>c. fst (SDInit c) = SDCARD_OK \<and> sdtype (snd (SDInit c)) = SDTYPE_UNKNOWN"
    using legacy_reject_card_SDInit by blast
qed

theorem SDInit_result_witness:
  "fst (SDInit no_card) = SDCARD_NOT_DETECTED \<and>
   go_idle_response 0 (SDInit_powerup no_card) = 0xff \<and>
   go_idle_response 9 (SDInit_powerup no_card) = 0xff \<and>
   fst (SDInit legacy_reject_card) = SDCARD_OK \<and>
   go_idle_response 0 (SDInit_powerup legacy_reject_card) = 0x01 \<and>
   sdtype (snd (SDInit legacy_reject_card)) = SDTYPE_UNKNOWN"
proof -
  have "\<forall>j<10. go_idle_response j (SDInit_powerup no_card) \<noteq> 0x01"
    by (simp add: go_idle_response_no_card)
  with SDInit_result [of no_card] have 1: "fst (SDInit no_card) = SDCARD_NOT_DETECTED"
    by blast
  have "fst (SDInit legacy_reject_card) \<noteq> SDCARD_NOT_DETECTED"
    by (simp add: legacy_reject_card_SDInit sd_defs)
  with SDInit_result [of legacy_reject_card]
  have "\<not> (\<forall>j<10. go_idle_response j (SDInit_powerup legacy_reject_card) \<noteq> 0x01)"
    and 2: "fst (SDInit legacy_reject_card) = SDCARD_OK"
    by blast+
  have 3: "go_idle_response 0 (SDInit_powerup legacy_reject_card) = 0x01"
  proof -
    let ?s0 = "SDInit_powerup legacy_reject_card"
    have m: "miso ?s0 = (\<lambda>n. if n = 18 then 0x01 else 0x05)" and l: "length (wire ?s0) = 10"
      by (simp_all add: SDInit_powerup_obs legacy_reject_card_def no_card_def)
    have p: "response_polls ?s0 = 1"
      by (rule response_polls_first) (simp add: m l)
    have "SD_GO_IDLE AND 0x80 = 0"
      by (simp add: sd_defs)
    from plain_response [OF this, of 0 ?s0] show ?thesis
      by (simp add: go_idle_response_def p m l)
  qed
  from 1 2 3 show ?thesis
    by (simp add: go_idle_response_no_card legacy_reject_card_SDInit)
qed

text \<open>
  C10. Let \<^verbatim>\<open>SDInit\<close> return success, let \<open>r8\<close> be the response to the
  send-interface-condition command and \<open>r58\<close> the response to the read-OCR command sent
  after it. If \<open>r8\<close> is \<open>0x01\<close> the card type is SDHC, whatever the polls of ACMD41 return;
  if \<open>r8\<close> is not \<open>0x01\<close> and \<open>r58\<close> is, the card type is SD; and the card type is unknown
  exactly when neither response is \<open>0x01\<close>.
\<close>

theorem SDInit_card_type:
  assumes "fst (SDInit s) = SDCARD_OK"
  shows "let s4 = snd (SDInit_idle s);
             (r8, s5) = SD_send_command SD_SEND_IF_COND 0x1aa s4;
             (r58, s6) = SD_send_command SD_READ_OCR 0 s5
         in (r8 = 0x01 \<longrightarrow> sdtype (snd (SDInit s)) = SDTYPE_SDHC) \<and>
            (r8 \<noteq> 0x01 \<and> r58 = 0x01 \<longrightarrow> sdtype (snd (SDInit s)) = SDTYPE_SD) \<and>
            (sdtype (snd (SDInit s)) = SDTYPE_UNKNOWN \<longleftrightarrow> r8 \<noteq> 0x01 \<and> r58 \<noteq> 0x01)"
proof -
  from assms have "fst (SDInit_idle s) = 0x01"
    by (simp add: SDInit_fst sd_defs split: if_splits)
  then show ?thesis
    by (simp add: SDInit_sdtype SDInit_detect_sdtype SDInit_idle_sdtype case_prod_beta Let_def)
      (simp add: sd_defs)
qed

theorem SDInit_card_type_witness:
  "fst (SDInit ones_card) = SDCARD_OK \<and>
   fst (SD_send_command SD_SEND_IF_COND 0x1aa (snd (SDInit_idle ones_card))) = 0x01 \<and>
   fst (SDInit_poll_loop SD_ADV_INIT (push_bit 30 1) 20000 0x01
         (SDInit_clocks 4 (snd (SD_send_command SD_SEND_IF_COND 0x1aa (snd (SDInit_idle ones_card))))))
     \<noteq> 0 \<and>
   sdtype (snd (SDInit ones_card)) = SDTYPE_SDHC"
proof -
  let ?s4 = "snd (SDInit_idle ones_card)"
  let ?s5 = "snd (SD_send_command SD_SEND_IF_COND 0x1aa ?s4)"
  have ok: "fst (SDInit ones_card) = SDCARD_OK"
    by (simp add: SDInit_fst ones_card_idle)
  have m4: "miso ?s4 = (\<lambda>n. 0x01)"
    by (simp add: SDInit_idle_obs ones_card_def)
  then have r8: "fst (SD_send_command SD_SEND_IF_COND 0x1aa ?s4) = 0x01"
    by (rule ones_response)
  have "miso (SDInit_clocks 4 ?s5) = (\<lambda>n. 0x01)"
    using SDInit_clocks_obs [of 4 ?s5] by (simp add: same_memory_def SD_send_command_fields m4)
  from ones_poll_loop [OF this, of SD_ADV_INIT "push_bit 30 1" 19999 "0x01"]
  have poll: "fst (SDInit_poll_loop SD_ADV_INIT (push_bit 30 1) 20000 0x01 (SDInit_clocks 4 ?s5)) \<noteq> 0"
    by simp
  from SDInit_card_type [OF ok] r8 have "sdtype (snd (SDInit ones_card)) = SDTYPE_SDHC"
    by (simp add: case_prod_beta Let_def)
  with ok r8 poll show ?thesis
    by blast
qed

end
